theory Spec2Isabelle
  imports Main "HOL-Library.Word"
begin

section \<open>JavaScript values used by the page\<close>

text \<open>
  The page is one ES module, \<^verbatim>\<open>src/main.js\<close>, with five classes. Three of them carry
  the behaviour verified here: \<^verbatim>\<open>PomodoroTimer\<close>, \<^verbatim>\<open>ImageStorage\<close> and
  \<^verbatim>\<open>TodoManager\<close>. Each method is a function from the state before the call to the
  state after it; the state holds the fields of the object and the part of the browser the
  method reads or writes.

  Numbers. Every number the three classes compute with is an integer (a count of seconds,
  a count of minutes, a \<^verbatim>\<open>Date.now()\<close> timestamp), far inside the range where
  JavaScript's doubles are exact, so a number is an \<^typ>\<open>int\<close>. \<^verbatim>\<open>NaN\<close> (what
  \<^verbatim>\<open>parseInt\<close> gives for a chip without a numeric \<^verbatim>\<open>data-time\<close>) is outside the
  model.

  Strings. A string is a \<^typ>\<open>string\<close>: its characters are the code units below 256.

  Exceptions and rejected promises are values of the type \<open>error\<close>. Two of its values
  are not JavaScript's: \<open>Unmodelled\<close> marks a text that \<^verbatim>\<open>JSON.parse\<close> may accept
  but whose value the model cannot hold (a number with a fraction or an exponent, a
  \<^verbatim>\<open>\u\<close> escape of a code unit from 256 on), and \<open>OutOfFuel\<close> is what the parser
  returns when its recursion bound is used up.
\<close>

datatype error = TypeError | SyntaxError | ConstraintError | DBError | Unmodelled | OutOfFuel

subsection \<open>\<^verbatim>\<open>Number.prototype.toString\<close>, \<^verbatim>\<open>%\<close> and \<^verbatim>\<open>padStart\<close>\<close>

definition digit_char :: "nat \<Rightarrow> char" where
  "digit_char n = ''0123456789'' ! (n mod 10)"

fun nat_toString :: "nat \<Rightarrow> string" where
  "nat_toString n =
     (if n < 10 then [digit_char n] else nat_toString (n div 10) @ [digit_char (n mod 10)])"

declare nat_toString.simps [simp del]

text \<open>The decimal form of an integer: a minus sign, then the digits of the magnitude.\<close>

definition toString :: "int \<Rightarrow> string" where
  "toString i = (if i < 0 then CHR ''-'' # nat_toString (nat (- i)) else nat_toString (nat i))"

text \<open>
  JavaScript's \<^verbatim>\<open>a % b\<close> truncates: the result has the sign of \<open>a\<close>
  (\<^verbatim>\<open>-1 % 60\<close> is \<^verbatim>\<open>-1\<close>), where HOL's \<open>mod\<close> on \<^typ>\<open>int\<close> floors.
  \<^verbatim>\<open>Math.floor(a / 60)\<close> is HOL's \<open>a div 60\<close>, which floors as well.
\<close>

definition js_rem :: "int \<Rightarrow> int \<Rightarrow> int" where
  "js_rem a b = sgn a * (\<bar>a\<bar> mod \<bar>b\<bar>)"

text \<open>\<^verbatim>\<open>s.padStart(n, c)\<close> for a one-character pad \<open>c\<close>.\<close>

definition padStart :: "nat \<Rightarrow> char \<Rightarrow> string \<Rightarrow> string" where
  "padStart n c s = replicate (n - length s) c @ s"

section \<open>The countdown timer\<close>

text \<open>
  The fields of \<^verbatim>\<open>PomodoroTimer\<close>, the text of the DOM elements it writes, and the part
  of the browser it drives: the interval timers that are registered (\<open>timers\<close>, the ids
  \<^verbatim>\<open>setInterval\<close> has handed out and \<^verbatim>\<open>clearInterval\<close> has not yet removed),
  the next id \<^verbatim>\<open>setInterval\<close> will return, and the messages shown by \<^verbatim>\<open>alert\<close>.
  \<open>interval\<close> is \<^verbatim>\<open>this.interval\<close>: \<open>None\<close> is \<^verbatim>\<open>null\<close>.
\<close>

record PomodoroTimer =
  timeLeft :: int
  originalTime :: int
  isRunning :: bool
  interval :: "nat option"
  timeDisplay :: string
  timerState :: string
  startBtn :: string
  title :: string
  timers :: "nat list"
  nextTimer :: nat
  alerts :: "string list"

definition updateDisplay :: "PomodoroTimer \<Rightarrow> PomodoroTimer" where
  "updateDisplay s =
     (let minutes = timeLeft s div 60;
          seconds = js_rem (timeLeft s) 60;
          text = toString minutes @ '':'' @ padStart 2 (CHR ''0'') (toString seconds)
      in s\<lparr>timeDisplay := text, title := text @ '' - ZenFocus''\<rparr>)"

text \<open>\<^verbatim>\<open>clearInterval(h)\<close>: unregisters the timer with that id; \<^verbatim>\<open>null\<close> and ids that
  are not registered are ignored.\<close>

definition clearInterval :: "nat option \<Rightarrow> nat list \<Rightarrow> nat list" where
  "clearInterval h ts = (case h of None \<Rightarrow> ts | Some i \<Rightarrow> removeAll i ts)"

definition pauseTimer :: "PomodoroTimer \<Rightarrow> PomodoroTimer" where
  "pauseTimer s =
     s\<lparr>isRunning := False, startBtn := ''Start'', timers := clearInterval (interval s) (timers s)\<rparr>"

definition setTime :: "int \<Rightarrow> PomodoroTimer \<Rightarrow> PomodoroTimer" where
  "setTime minutes s =
     (let s1 = pauseTimer s;
          s2 = s1\<lparr>originalTime := minutes * 60\<rparr>;
          s3 = s2\<lparr>timeLeft := originalTime s2\<rparr>;
          s4 = s3\<lparr>timerState := (if minutes > 15 then ''Focus'' else ''Break'')\<rparr>
      in updateDisplay s4)"

text \<open>\<^verbatim>\<open>setInterval\<close> registers a fresh id and returns it. The callback is the same
  closure for every interval this class registers, so the id alone is kept.\<close>

definition startTimer :: "PomodoroTimer \<Rightarrow> PomodoroTimer" where
  "startTimer s =
     (if isRunning s then s
      else s\<lparr>isRunning := True, startBtn := ''Pause'',
             interval := Some (nextTimer s),
             timers := timers s @ [nextTimer s],
             nextTimer := Suc (nextTimer s)\<rparr>)"

definition toggleTimer :: "PomodoroTimer \<Rightarrow> PomodoroTimer" where
  "toggleTimer s = (if isRunning s then pauseTimer s else startTimer s)"

definition resetTimer :: "PomodoroTimer \<Rightarrow> PomodoroTimer" where
  "resetTimer s = (let s1 = pauseTimer s in updateDisplay (s1\<lparr>timeLeft := originalTime s1\<rparr>))"

definition completeTimer :: "PomodoroTimer \<Rightarrow> PomodoroTimer" where
  "completeTimer s =
     (let s1 = pauseTimer s;
          s2 = s1\<lparr>alerts := alerts s1 @ [''Time is up!'']\<rparr>
      in updateDisplay (s2\<lparr>timeLeft := originalTime s2\<rparr>))"

text \<open>The body of the callback given to \<^verbatim>\<open>setInterval\<close> in \<^verbatim>\<open>startTimer\<close>.\<close>

definition interval_callback :: "PomodoroTimer \<Rightarrow> PomodoroTimer" where
  "interval_callback s =
     (let s1 = updateDisplay (s\<lparr>timeLeft := timeLeft s - 1\<rparr>)
      in if timeLeft s1 \<le> 0 then completeTimer s1 else s1)"

text \<open>One second passes: the browser runs the callback of each registered interval, in
  the order of registration. An interval that an earlier callback has cleared does not
  fire.\<close>

definition fire :: "nat \<Rightarrow> PomodoroTimer \<Rightarrow> PomodoroTimer" where
  "fire i s = (if i \<in> set (timers s) then interval_callback s else s)"

definition tick :: "PomodoroTimer \<Rightarrow> PomodoroTimer" where
  "tick s = fold fire (timers s) s"

text \<open>The constructor: thirty minutes, not running, the display written once by
  \<^verbatim>\<open>init\<close>. The parameter is the page before the script runs.\<close>

definition PomodoroTimer_new :: "PomodoroTimer \<Rightarrow> PomodoroTimer" where
  "PomodoroTimer_new page =
     updateDisplay (page\<lparr>timeLeft := 30 * 60, originalTime := 30 * 60,
                         isRunning := False, interval := None\<rparr>)"

text \<open>What can happen to the timer once the page is loaded: a click on a duration chip
  whose \<^verbatim>\<open>data-time\<close> is the given number of minutes, a click on the start/pause
  button, a click on the reset button, a second passing.\<close>

datatype timer_event = ChipClick int | StartPauseClick | ResetClick | Second

fun timer_step :: "timer_event \<Rightarrow> PomodoroTimer \<Rightarrow> PomodoroTimer" where
  "timer_step (ChipClick minutes) s = setTime minutes s"
| "timer_step StartPauseClick s = toggleTimer s"
| "timer_step ResetClick s = resetTimer s"
| "timer_step Second s = tick s"

text \<open>What holds of every timer the page can reach: the registered intervals are exactly
  the one \<^verbatim>\<open>this.interval\<close> names while running, and none otherwise.\<close>

definition timer_inv :: "PomodoroTimer \<Rightarrow> bool" where
  "timer_inv s =
     (case (isRunning s, interval s) of
        (True, Some i) \<Rightarrow> timers s = [i]
      | (True, None) \<Rightarrow> False
      | (False, _) \<Rightarrow> timers s = [])"

section \<open>The image store\<close>

text \<open>
  \<^verbatim>\<open>ImageStorage\<close> keeps uploaded images in one IndexedDB object store whose key path
  is \<^verbatim>\<open>id\<close>. Its methods are \<^verbatim>\<open>async\<close>: each is modelled at the point where the
  promise it returned has settled, as the value the promise settled with and the store it
  left. By then the open request of the constructor has settled too, so the state records
  only how: \<open>opened\<close> says that \<^verbatim>\<open>this.db\<close> is the database; otherwise
  \<^verbatim>\<open>initPromise\<close> is rejected and \<^verbatim>\<open>await this.initPromise\<close> throws in every
  method. \<open>images\<close> are the records of the object store in the order of their keys, the
  order in which \<^verbatim>\<open>getAll\<close> returns them. Failures of the storage itself (a full
  disk, an aborted transaction) and of the file reader are not modelled.
\<close>

datatype 'a promise = Resolved 'a | Rejected error


record item =
  item_id :: int
  item_name :: string
  item_data :: string

text \<open>
  \<^verbatim>\<open>reader.readAsDataURL(file)\<close>: the media type of the file and its bytes in base 64
  (RFC 4648, with padding). A file without a media type, which browsers render each in
  their own way, is outside the model.
\<close>

definition base64_char :: "nat \<Rightarrow> char" where
  "base64_char n =
     ''ABCDEFGHIJKLMNOPQRSTUVWXYZabcdefghijklmnopqrstuvwxyz0123456789+/'' ! (n mod 64)"

fun base64 :: "8 word list \<Rightarrow> string" where
  "base64 [] = []"
| "base64 [a] =
     [base64_char (unat a div 4), base64_char (unat a mod 4 * 16), CHR ''='', CHR ''='']"
| "base64 [a, b] =
     [base64_char (unat a div 4), base64_char (unat a mod 4 * 16 + unat b div 16),
      base64_char (unat b mod 16 * 4), CHR ''='']"
| "base64 (a # b # c # rest) =
     [base64_char (unat a div 4), base64_char (unat a mod 4 * 16 + unat b div 16),
      base64_char (unat b mod 16 * 4 + unat c div 64), base64_char (unat c mod 64)]
     @ base64 rest"


record ImageStorage =
  opened :: bool
  images :: "item list"

text \<open>The constructor. Its parameters are the environment's: whether
  \<^verbatim>\<open>indexedDB.open\<close> succeeds, and the records the database holds from earlier visits.\<close>

definition ImageStorage_new :: "bool \<Rightarrow> item list \<Rightarrow> ImageStorage" where
  "ImageStorage_new ok rs = \<lparr>opened = ok, images = rs\<rparr>"

text \<open>\<^verbatim>\<open>store.add(item)\<close> fails with a \<^verbatim>\<open>ConstraintError\<close> when a record with the
  key of \<open>item\<close> exists; \<^verbatim>\<open>store.delete(id)\<close> succeeds whether or not one does.\<close>

definition store_add :: "item \<Rightarrow> item list \<Rightarrow> item list option" where
  "store_add r rs =
     (if item_id r \<in> item_id ` set rs then None else Some (insort_key item_id r rs))"

definition store_delete :: "int \<Rightarrow> item list \<Rightarrow> item list" where
  "store_delete k rs = filter (\<lambda>r. item_id r \<noteq> k) rs"



definition deleteImage :: "int \<Rightarrow> ImageStorage \<Rightarrow> unit promise \<times> ImageStorage" where
  "deleteImage k st =
     (if \<not> opened st then (Rejected DBError, st)
      else (Resolved (), st\<lparr>images := store_delete k (images st)\<rparr>))"

section \<open>JSON values\<close>

text \<open>
  The values that \<^verbatim>\<open>JSON.parse\<close> returns and \<^verbatim>\<open>JSON.stringify\<close> writes, which are
  the values \<^verbatim>\<open>this.tasks\<close> can hold. A number is an integer. An object is the list of
  its properties in the order in which \<^verbatim>\<open>JSON.stringify\<close> and \<^verbatim>\<open>for-in\<close> visit
  them, which is the order of their creation. (JavaScript visits property names that are
  array indices first; the page uses no such name and the model does not move them.)
\<close>

datatype json =
    JNull
  | JBool bool
  | JNum int
  | JStr string
  | JArr "json list"
  | JObj "(string \<times> json) list"

text \<open>\<^verbatim>\<open>ToBoolean\<close>, as in \<^verbatim>\<open>v || []\<close> and \<^verbatim>\<open>!v\<close>.\<close>

definition truthy :: "json \<Rightarrow> bool" where
  "truthy v =
     (case v of JNull \<Rightarrow> False | JBool b \<Rightarrow> b | JNum n \<Rightarrow> n \<noteq> 0 | JStr s \<Rightarrow> s \<noteq> []
      | JArr _ \<Rightarrow> True | JObj _ \<Rightarrow> True)"

text \<open>\<^verbatim>\<open>obj[k] = v\<close>: a property that exists keeps its place, a new one comes last.\<close>

fun obj_set :: "string \<Rightarrow> json \<Rightarrow> (string \<times> json) list \<Rightarrow> (string \<times> json) list" where
  "obj_set k v [] = [(k, v)]"
| "obj_set k v (p # ps) = (if fst p = k then (k, v) # ps else p # obj_set k v ps)"

subsection \<open>\<^verbatim>\<open>JSON.stringify\<close>\<close>

text \<open>
  \<^verbatim>\<open>QuoteJSONString\<close>: the quotation mark and the backslash are escaped, the control
  characters below U+0020 are written as \<^verbatim>\<open>\b \f \n \r \t\<close> or as \<^verbatim>\<open>\u00XX\<close> in lower
  case, every other code unit stands for itself. \<open>CHR 0x22\<close> is the quotation mark and
  \<open>CHR 0x5C\<close> the backslash.
\<close>

definition hex_char :: "nat \<Rightarrow> char" where
  "hex_char n = ''0123456789abcdef'' ! (n mod 16)"

definition quote_char :: "char \<Rightarrow> string" where
  "quote_char c =
     (let n = of_char c :: nat in
      if n = 0x22 then [CHR 0x5C, CHR 0x22]
      else if n = 0x5C then [CHR 0x5C, CHR 0x5C]
      else if n = 0x08 then [CHR 0x5C, CHR ''b'']
      else if n = 0x0C then [CHR 0x5C, CHR ''f'']
      else if n = 0x0A then [CHR 0x5C, CHR ''n'']
      else if n = 0x0D then [CHR 0x5C, CHR ''r'']
      else if n = 0x09 then [CHR 0x5C, CHR ''t'']
      else if n < 0x20 then
        [CHR 0x5C, CHR ''u'', CHR ''0'', CHR ''0'', hex_char (n div 16), hex_char (n mod 16)]
      else [c])"

definition quote :: "string \<Rightarrow> string" where
  "quote s = CHR 0x22 # concat (map quote_char s) @ [CHR 0x22]"

text \<open>\<^verbatim>\<open>JSON.stringify(v)\<close> without indentation.\<close>

fun stringify :: "json \<Rightarrow> string"
  and stringify_elements :: "json list \<Rightarrow> string"
  and stringify_members :: "(string \<times> json) list \<Rightarrow> string" where
  "stringify JNull = ''null''"
| "stringify (JBool b) = (if b then ''true'' else ''false'')"
| "stringify (JNum n) = toString n"
| "stringify (JStr s) = quote s"
| "stringify (JArr xs) = ''['' @ stringify_elements xs @ '']''"
| "stringify (JObj ps) = ''{'' @ stringify_members ps @ ''}''"
| "stringify_elements [] = []"
| "stringify_elements (x # xs) =
     stringify x @ (if xs = [] then [] else '','' @ stringify_elements xs)"
| "stringify_members [] = []"
| "stringify_members (p # ps) =
     quote (fst p) @ '':'' @ stringify (snd p) @
     (if ps = [] then [] else '','' @ stringify_members ps)"

subsection \<open>\<^verbatim>\<open>JSON.parse\<close>\<close>

text \<open>
  A recursive-descent parser of the JSON grammar of ECMA-404. Every parser takes the text
  that is left and returns what it read and the text after it, or the exception. White
  space is a space, a tab, a line feed or a carriage return.
\<close>

definition is_ws :: "char \<Rightarrow> bool" where
  "is_ws c = (c = CHR '' '' \<or> c = CHR 0x09 \<or> c = CHR 0x0A \<or> c = CHR 0x0D)"

definition skip_ws :: "string \<Rightarrow> string" where
  "skip_ws cs = dropWhile is_ws cs"

definition is_digit :: "char \<Rightarrow> bool" where
  "is_digit c = (48 \<le> (of_char c :: nat) \<and> (of_char c :: nat) \<le> 57)"

definition digit_val :: "char \<Rightarrow> nat" where
  "digit_val c = of_char c - 48"

definition digits_val :: "string \<Rightarrow> nat" where
  "digits_val ds = foldl (\<lambda>a c. 10 * a + digit_val c) 0 ds"

definition hex_val :: "char \<Rightarrow> nat option" where
  "hex_val c =
     (let n = of_char c :: nat in
      if 48 \<le> n \<and> n \<le> 57 then Some (n - 48)
      else if 97 \<le> n \<and> n \<le> 102 then Some (n - 87)
      else if 65 \<le> n \<and> n \<le> 70 then Some (n - 55)
      else None)"

definition unescape :: "char \<Rightarrow> char option" where
  "unescape e =
     (if e = CHR 0x22 then Some (CHR 0x22)
      else if e = CHR 0x5C then Some (CHR 0x5C)
      else if e = CHR ''/'' then Some (CHR ''/'')
      else if e = CHR ''b'' then Some (CHR 0x08)
      else if e = CHR ''f'' then Some (CHR 0x0C)
      else if e = CHR ''n'' then Some (CHR 0x0A)
      else if e = CHR ''r'' then Some (CHR 0x0D)
      else if e = CHR ''t'' then Some (CHR 0x09)
      else None)"

text \<open>
  The characters of a string after its opening quotation mark, up to the closing one.
  Control characters must be escaped; \<^verbatim>\<open>\u\<close> takes four hexadecimal digits in either
  case.
\<close>

definition cons_char :: "char \<Rightarrow> error + string \<times> string \<Rightarrow> error + string \<times> string" where
  "cons_char c res = (case res of Inl e \<Rightarrow> Inl e | Inr (s, r) \<Rightarrow> Inr (c # s, r))"

fun parse_chars :: "string \<Rightarrow> error + string \<times> string" where
  "parse_chars [] = Inl SyntaxError"
| "parse_chars (c # cs) =
     (if c = CHR 0x22 then Inr ([], cs)
      else if c = CHR 0x5C then
        (case cs of
           [] \<Rightarrow> Inl SyntaxError
         | e # cs1 \<Rightarrow>
             if e = CHR ''u'' then
               (case cs1 of
                  h1 # h2 # h3 # h4 # cs2 \<Rightarrow>
                    (case (hex_val h1, hex_val h2, hex_val h3, hex_val h4) of
                       (Some a, Some b, Some c', Some d) \<Rightarrow>
                         (let n = ((a * 16 + b) * 16 + c') * 16 + d
                          in if n < 256 then cons_char (char_of n) (parse_chars cs2)
                             else Inl Unmodelled)
                     | _ \<Rightarrow> Inl SyntaxError)
                | _ \<Rightarrow> Inl SyntaxError)
             else
               (case unescape e of
                  None \<Rightarrow> Inl SyntaxError
                | Some d \<Rightarrow> cons_char d (parse_chars cs1)))
      else if (of_char c :: nat) < 0x20 then Inl SyntaxError
      else cons_char c (parse_chars cs))"

text \<open>
  A number: an optional minus sign, then a single zero or a digit from 1 to 9 followed by
  digits. A fraction or an exponent after that is outside the model.
\<close>

definition parse_int :: "string \<Rightarrow> error + nat \<times> string" where
  "parse_int cs =
     (case cs of
        [] \<Rightarrow> Inl SyntaxError
      | d # r \<Rightarrow>
          if \<not> is_digit d then Inl SyntaxError
          else if d = CHR ''0'' then Inr (0, r)
          else Inr (digits_val (takeWhile is_digit cs), dropWhile is_digit cs))"

definition parse_number :: "string \<Rightarrow> error + json \<times> string" where
  "parse_number cs =
     (let neg = (cs \<noteq> [] \<and> hd cs = CHR ''-'')
      in case parse_int (if neg then tl cs else cs) of
           Inl e \<Rightarrow> Inl e
         | Inr (n, r) \<Rightarrow>
             if r \<noteq> [] \<and> (hd r = CHR ''.'' \<or> hd r = CHR ''e'' \<or> hd r = CHR ''E'')
             then Inl Unmodelled
             else Inr (JNum (if neg then - int n else int n), r))"

definition parse_literal :: "string \<Rightarrow> error + json \<times> string" where
  "parse_literal cs =
     (if take 4 cs = ''null'' then Inr (JNull, drop 4 cs)
      else if take 4 cs = ''true'' then Inr (JBool True, drop 4 cs)
      else if take 5 cs = ''false'' then Inr (JBool False, drop 5 cs)
      else Inl SyntaxError)"

text \<open>
  The three productions that recur: a value, the elements of an array after its bracket,
  the members of an object after its brace. Each is written once, over the parsers it
  calls, and the recursion is tied below.
\<close>

definition value_step ::
  "(string \<Rightarrow> error + json list \<times> string) \<Rightarrow>
   (string \<Rightarrow> error + (string \<times> json) list \<times> string) \<Rightarrow>
   string \<Rightarrow> error + json \<times> string" where
  "value_step elements members cs =
     (case skip_ws cs of
        [] \<Rightarrow> Inl SyntaxError
      | c # r \<Rightarrow>
          if c = CHR ''['' then
            (case skip_ws r of
               [] \<Rightarrow> Inl SyntaxError
             | c1 # r1 \<Rightarrow>
                 if c1 = CHR '']'' then Inr (JArr [], r1)
                 else (case elements r of
                         Inl e \<Rightarrow> Inl e
                       | Inr (xs, r2) \<Rightarrow> Inr (JArr xs, r2)))
          else if c = CHR ''{'' then
            (case skip_ws r of
               [] \<Rightarrow> Inl SyntaxError
             | c1 # r1 \<Rightarrow>
                 if c1 = CHR ''}'' then Inr (JObj [], r1)
                 else (case members r of
                         Inl e \<Rightarrow> Inl e
                       | Inr (ps, r2) \<Rightarrow>
                           Inr (JObj (foldl (\<lambda>obj p. obj_set (fst p) (snd p) obj) [] ps), r2)))
          else if c = CHR 0x22 then
            (case parse_chars r of
               Inl e \<Rightarrow> Inl e
             | Inr (s, r1) \<Rightarrow> Inr (JStr s, r1))
          else if c = CHR ''-'' \<or> is_digit c then parse_number (c # r)
          else parse_literal (c # r))"

definition elements_step ::
  "(string \<Rightarrow> error + json \<times> string) \<Rightarrow>
   (string \<Rightarrow> error + json list \<times> string) \<Rightarrow>
   string \<Rightarrow> error + json list \<times> string" where
  "elements_step val elements cs =
     (case val cs of
        Inl e \<Rightarrow> Inl e
      | Inr (x, r) \<Rightarrow>
          (case skip_ws r of
             [] \<Rightarrow> Inl SyntaxError
           | c # r1 \<Rightarrow>
               if c = CHR '']'' then Inr ([x], r1)
               else if c = CHR '','' then
                 (case elements r1 of
                    Inl e \<Rightarrow> Inl e
                  | Inr (xs, r2) \<Rightarrow> Inr (x # xs, r2))
               else Inl SyntaxError))"

definition members_step ::
  "(string \<Rightarrow> error + json \<times> string) \<Rightarrow>
   (string \<Rightarrow> error + (string \<times> json) list \<times> string) \<Rightarrow>
   string \<Rightarrow> error + (string \<times> json) list \<times> string" where
  "members_step val members cs =
     (case skip_ws cs of
        [] \<Rightarrow> Inl SyntaxError
      | q # r \<Rightarrow>
          if q \<noteq> CHR 0x22 then Inl SyntaxError
          else
            (case parse_chars r of
               Inl e \<Rightarrow> Inl e
             | Inr (k, r1) \<Rightarrow>
                 (case skip_ws r1 of
                    [] \<Rightarrow> Inl SyntaxError
                  | c # r2 \<Rightarrow>
                      if c \<noteq> CHR '':'' then Inl SyntaxError
                      else
                        (case val r2 of
                           Inl e \<Rightarrow> Inl e
                         | Inr (v, r3) \<Rightarrow>
                             (case skip_ws r3 of
                                [] \<Rightarrow> Inl SyntaxError
                              | c1 # r4 \<Rightarrow>
                                  if c1 = CHR ''}'' then Inr ([(k, v)], r4)
                                  else if c1 = CHR '','' then
                                    (case members r4 of
                                       Inl e \<Rightarrow> Inl e
                                     | Inr (ps, r5) \<Rightarrow> Inr ((k, v) # ps, r5))
                                  else Inl SyntaxError)))))"

text \<open>
  The recursion is bounded by a number that decreases with every call. \<^verbatim>\<open>JSON.parse\<close>
  starts with twice the length of the text, plus one, which is never used up (see
  \<open>JSON_parse_fuel\<close> below). After the value only white space may follow.
\<close>

fun parse_value :: "nat \<Rightarrow> string \<Rightarrow> error + json \<times> string"
  and parse_elements :: "nat \<Rightarrow> string \<Rightarrow> error + json list \<times> string"
  and parse_members :: "nat \<Rightarrow> string \<Rightarrow> error + (string \<times> json) list \<times> string" where
  "parse_value 0 cs = Inl OutOfFuel"
| "parse_value (Suc n) cs = value_step (parse_elements n) (parse_members n) cs"
| "parse_elements 0 cs = Inl OutOfFuel"
| "parse_elements (Suc n) cs = elements_step (parse_value n) (parse_elements n) cs"
| "parse_members 0 cs = Inl OutOfFuel"
| "parse_members (Suc n) cs = members_step (parse_value n) (parse_members n) cs"

definition JSON_parse :: "string \<Rightarrow> error + json" where
  "JSON_parse s =
     (case parse_value (2 * length s + 1) s of
        Inl e \<Rightarrow> Inl e
      | Inr (v, r) \<Rightarrow> if skip_ws r = [] then Inr v else Inl SyntaxError)"

subsection \<open>Truthiness, property access and \<^verbatim>\<open>trim\<close>\<close>

definition truthy_opt :: "json option \<Rightarrow> bool" where
  "truthy_opt v = (case v of None \<Rightarrow> False | Some x \<Rightarrow> truthy x)"

text \<open>
  \<^verbatim>\<open>t.k\<close> for the property names the page reads, \<^verbatim>\<open>id\<close> and \<^verbatim>\<open>completed\<close>:
  a \<^verbatim>\<open>TypeError\<close> on \<^verbatim>\<open>null\<close>, \<^verbatim>\<open>undefined\<close> (\<open>None\<close>) on a number, a string,
  a boolean or an array, none of which has a property of these names.
\<close>

definition get_prop :: "string \<Rightarrow> json \<Rightarrow> error + json option" where
  "get_prop k t =
     (case t of JNull \<Rightarrow> Inl TypeError | JObj ps \<Rightarrow> Inr (map_of ps k) | _ \<Rightarrow> Inr None)"

text \<open>The white space and line terminators of ECMAScript among the code units below
  256: tab, line feed, vertical tab, form feed, carriage return, space, no-break space.\<close>

definition is_space :: "char \<Rightarrow> bool" where
  "is_space c = ((of_char c :: nat) \<in> {0x09, 0x0A, 0x0B, 0x0C, 0x0D, 0x20, 0xA0})"

definition trim :: "string \<Rightarrow> string" where
  "trim s = rev (dropWhile is_space (rev (dropWhile is_space s)))"

section \<open>The to-do list\<close>

text \<open>
  \<^verbatim>\<open>this.tasks\<close> is whatever \<^verbatim>\<open>JSON.parse\<close> returned, so it is a \<^typ>\<open>json\<close>, not
  a list of tasks. \<open>inputEl\<close> is the value of the text input, \<open>localStorage\<close> the
  browser's storage for the page. Of \<^verbatim>\<open>render\<close>, which writes the DOM only, the model
  keeps the exceptions: \<^verbatim>\<open>this.tasks.forEach\<close> is not a function unless the value is an
  array, and \<^verbatim>\<open>task.completed\<close> throws on a \<^verbatim>\<open>null\<close> element. An operation returns
  the exception it ends with, if any, and the state it leaves. That \<^verbatim>\<open>setItem\<close> can
  fail for lack of space is not modelled.
\<close>

record TodoManager =
  tasks :: json
  inputEl :: string
  localStorage :: "string \<rightharpoonup> string"

definition render :: "TodoManager \<Rightarrow> error option" where
  "render st =
     (case tasks st of
        JArr xs \<Rightarrow> if JNull \<in> set xs then Some TypeError else None
      | _ \<Rightarrow> Some TypeError)"

definition save :: "TodoManager \<Rightarrow> TodoManager" where
  "save st = st\<lparr>localStorage := (localStorage st)(''pomodoro-tasks'' \<mapsto> stringify (tasks st))\<rparr>"

text \<open>The constructor, from the storage and the input's value. \<^verbatim>\<open>getItem\<close> gives
  \<^verbatim>\<open>null\<close> for a key that is absent, which \<^verbatim>\<open>JSON.parse\<close> reads as the text
  \<^verbatim>\<open>null\<close>. An exception leaves no object.\<close>

definition TodoManager_new :: "(string \<rightharpoonup> string) \<Rightarrow> string \<Rightarrow> error + TodoManager" where
  "TodoManager_new storage input =
     (case JSON_parse (case storage ''pomodoro-tasks'' of None \<Rightarrow> ''null'' | Some s \<Rightarrow> s) of
        Inl e \<Rightarrow> Inl e
      | Inr v \<Rightarrow>
          (let st = \<lparr>tasks = (if truthy v then v else JArr []), inputEl = input,
                     localStorage = storage\<rparr>
           in case render st of Some e \<Rightarrow> Inl e | None \<Rightarrow> Inr st))"

text \<open>\<^verbatim>\<open>this.tasks.unshift(task)\<close>.\<close>

definition unshift :: "json \<Rightarrow> json \<Rightarrow> error + json" where
  "unshift task v = (case v of JArr xs \<Rightarrow> Inr (JArr (task # xs)) | _ \<Rightarrow> Inl TypeError)"

definition addTask :: "int \<Rightarrow> TodoManager \<Rightarrow> error option \<times> TodoManager" where
  "addTask now st =
     (let text = trim (inputEl st)
      in if text = [] then (None, st)
         else
           let task = JObj [(''id'', JNum now), (''text'', JStr text), (''completed'', JBool False)]
           in case unshift task (tasks st) of
                Inl e \<Rightarrow> (Some e, st)
              | Inr v \<Rightarrow>
                  let st1 = save (st\<lparr>tasks := v\<rparr>)
                  in case render st1 of
                       Some e \<Rightarrow> (Some e, st1)
                     | None \<Rightarrow> (None, st1\<lparr>inputEl := []\<rparr>))"

text \<open>\<^verbatim>\<open>xs.find(t => t.id === id)\<close>, as the index of the element found.\<close>

fun find_id :: "int \<Rightarrow> json list \<Rightarrow> error + nat option" where
  "find_id i [] = Inr None"
| "find_id i (t # ts) =
     (case get_prop ''id'' t of
        Inl e \<Rightarrow> Inl e
      | Inr v \<Rightarrow>
          if v = Some (JNum i) then Inr (Some 0)
          else (case find_id i ts of
                  Inl e \<Rightarrow> Inl e
                | Inr None \<Rightarrow> Inr None
                | Inr (Some j) \<Rightarrow> Inr (Some (Suc j))))"

text \<open>\<^verbatim>\<open>task.completed = !task.completed\<close> on an object.\<close>

definition negate_completed :: "json \<Rightarrow> json" where
  "negate_completed task =
     (case task of
        JObj ps \<Rightarrow> JObj (obj_set ''completed'' (JBool (\<not> truthy_opt (map_of ps ''completed''))) ps)
      | _ \<Rightarrow> task)"

definition toggleTask :: "int \<Rightarrow> TodoManager \<Rightarrow> error option \<times> TodoManager" where
  "toggleTask i st =
     (case tasks st of
        JArr xs \<Rightarrow>
          (case find_id i xs of
             Inl e \<Rightarrow> (Some e, st)
           | Inr None \<Rightarrow> (None, st)
           | Inr (Some j) \<Rightarrow>
               let st1 = save (st\<lparr>tasks := JArr (xs[j := negate_completed (xs ! j)])\<rparr>)
               in (render st1, st1))
      | _ \<Rightarrow> (Some TypeError, st))"

text \<open>\<^verbatim>\<open>xs.filter(t => t.id !== id)\<close>.\<close>

fun filter_id :: "int \<Rightarrow> json list \<Rightarrow> error + json list" where
  "filter_id i [] = Inr []"
| "filter_id i (t # ts) =
     (case get_prop ''id'' t of
        Inl e \<Rightarrow> Inl e
      | Inr v \<Rightarrow>
          (case filter_id i ts of
             Inl e \<Rightarrow> Inl e
           | Inr r \<Rightarrow> Inr (if v \<noteq> Some (JNum i) then t # r else r)))"

definition deleteTask :: "int \<Rightarrow> TodoManager \<Rightarrow> error option \<times> TodoManager" where
  "deleteTask i st =
     (case tasks st of
        JArr xs \<Rightarrow>
          (case filter_id i xs of
             Inl e \<Rightarrow> (Some e, st)
           | Inr r \<Rightarrow>
               let st1 = save (st\<lparr>tasks := JArr r\<rparr>)
               in (render st1, st1))
      | _ \<Rightarrow> (Some TypeError, st))"

text \<open>The task lists of the specification: records of an id, a text and a flag, and the
  JavaScript value that such a list is.\<close>

record task =
  task_id :: int
  task_text :: string
  task_completed :: bool

definition task_json :: "task \<Rightarrow> json" where
  "task_json t =
     JObj [(''id'', JNum (task_id t)), (''text'', JStr (task_text t)),
           (''completed'', JBool (task_completed t))]"

definition tasks_json :: "task list \<Rightarrow> json" where
  "tasks_json ts = JArr (map task_json ts)"

section \<open>Auxiliary definitions\<close>

text \<open>What may follow a number in the text \<open>stringify\<close> writes: the end, a comma, or a
  closing bracket or brace.\<close>

definition ends_number :: "string \<Rightarrow> bool" where
  "ends_number rest = (rest = [] \<or> hd rest = CHR '','' \<or> hd rest = CHR '']'' \<or> hd rest = CHR ''}'')"

text \<open>Fuel that is enough to parse what \<open>stringify\<close> writes for a value.\<close>

fun fuel :: "json \<Rightarrow> nat"
  and fuel_elements :: "json list \<Rightarrow> nat"
  and fuel_members :: "(string \<times> json) list \<Rightarrow> nat" where
  "fuel JNull = 1"
| "fuel (JBool b) = 1"
| "fuel (JNum n) = 1"
| "fuel (JStr s) = 1"
| "fuel (JArr xs) = Suc (fuel_elements xs)"
| "fuel (JObj ps) = Suc (fuel_members ps)"
| "fuel_elements [] = 0"
| "fuel_elements (x # xs) = Suc (fuel x + fuel_elements xs)"
| "fuel_members [] = 0"
| "fuel_members (p # ps) = Suc (fuel (snd p) + fuel_members ps)"

text \<open>No object, at any depth, has two properties of the same name: true of every
  JavaScript object.\<close>

fun distinct_keys :: "json \<Rightarrow> bool"
  and distinct_keys_elements :: "json list \<Rightarrow> bool"
  and distinct_keys_members :: "(string \<times> json) list \<Rightarrow> bool" where
  "distinct_keys JNull = True"
| "distinct_keys (JBool b) = True"
| "distinct_keys (JNum n) = True"
| "distinct_keys (JStr s) = True"
| "distinct_keys (JArr xs) = distinct_keys_elements xs"
| "distinct_keys (JObj ps) = (distinct (map fst ps) \<and> distinct_keys_members ps)"
| "distinct_keys_elements [] = True"
| "distinct_keys_elements (x # xs) = (distinct_keys x \<and> distinct_keys_elements xs)"
| "distinct_keys_members [] = True"
| "distinct_keys_members (p # ps) = (distinct_keys (snd p) \<and> distinct_keys_members ps)"

section \<open>Examples\<close>

text \<open>A page on which nothing has run yet, for the examples.\<close>

definition blank_page :: PomodoroTimer where
  "blank_page =
     \<lparr>timeLeft = 0, originalTime = 0, isRunning = False, interval = None,
      timeDisplay = [], timerState = ''Focus'', startBtn = ''Start'', title = [],
      timers = [], nextTimer = 1, alerts = []\<rparr>"


definition store0 :: ImageStorage where
  "store0 =
     ImageStorage_new True
       [\<lparr>item_id = 5, item_name = ''b.png'', item_data = ''data:image/png;base64,AA==''\<rparr>]"

text \<open>A to-do list of two tasks, with a text typed into the input.\<close>

definition todo0 :: TodoManager where
  "todo0 =
     \<lparr>tasks = tasks_json [\<lparr>task_id = 5, task_text = ''walk'', task_completed = False\<rparr>,
                          \<lparr>task_id = 3, task_text = ''read'', task_completed = True\<rparr>],
      inputEl = ''  buy milk '', localStorage = Map.empty\<rparr>"

text \<open>The to-do list after two tasks were added to the empty list while \<^verbatim>\<open>Date.now()\<close>
  returned the same number, 5: first \<^verbatim>\<open>a\<close>, then, with a new text in the input,
  \<^verbatim>\<open>b\<close>.\<close>

definition twins :: TodoManager where
  "twins =
     snd (addTask 5
       ((snd (addTask 5 \<lparr>tasks = JArr [], inputEl = ''a'', localStorage = Map.empty\<rparr>))
          \<lparr>inputEl := ''b''\<rparr>))"

section \<open>Properties of the timer\<close>

subsection \<open>Seconds passing\<close>

lemma tick_running:
  "timers s = [i] \<Longrightarrow> tick s = interval_callback s"
  by (simp add: tick_def fire_def)

lemma tick_idle: "timers s = [] \<Longrightarrow> tick s = s"
  by (simp add: tick_def)

lemma updateDisplay_fields [simp]:
  "timeLeft (updateDisplay s) = timeLeft s"
  "originalTime (updateDisplay s) = originalTime s"
  "isRunning (updateDisplay s) = isRunning s"
  "interval (updateDisplay s) = interval s"
  "timers (updateDisplay s) = timers s"
  "nextTimer (updateDisplay s) = nextTimer s"
  "alerts (updateDisplay s) = alerts s"
  "startBtn (updateDisplay s) = startBtn s"
  "timerState (updateDisplay s) = timerState s"
  by (simp_all add: updateDisplay_def Let_def)

lemma pauseTimer_fields [simp]:
  "timeLeft (pauseTimer s) = timeLeft s"
  "originalTime (pauseTimer s) = originalTime s"
  "isRunning (pauseTimer s) = False"
  "interval (pauseTimer s) = interval s"
  "timers (pauseTimer s) = clearInterval (interval s) (timers s)"
  "nextTimer (pauseTimer s) = nextTimer s"
  "alerts (pauseTimer s) = alerts s"
  "timeDisplay (pauseTimer s) = timeDisplay s"
  by (simp_all add: pauseTimer_def)

lemma pauseTimer_cancels: "timer_inv s \<Longrightarrow> timers (pauseTimer s) = []"
  by (auto simp: timer_inv_def clearInterval_def split: bool.splits option.splits if_splits)

lemma callback_running:
  assumes "1 < timeLeft s"
  shows "timeLeft (interval_callback s) = timeLeft s - 1"
    and "timers (interval_callback s) = timers s"
    and "isRunning (interval_callback s) = isRunning s"
    and "interval (interval_callback s) = interval s"
    and "alerts (interval_callback s) = alerts s"
    and "originalTime (interval_callback s) = originalTime s"
    and "nextTimer (interval_callback s) = nextTimer s"
  using assms by (simp_all add: interval_callback_def Let_def)

lemma ticks_running:
  "timers s = [i] \<Longrightarrow> int k < timeLeft s \<Longrightarrow>
     timeLeft ((tick ^^ k) s) = timeLeft s - int k \<and>
     timers ((tick ^^ k) s) = [i] \<and>
     isRunning ((tick ^^ k) s) = isRunning s \<and>
     interval ((tick ^^ k) s) = interval s \<and>
     alerts ((tick ^^ k) s) = alerts s \<and>
     originalTime ((tick ^^ k) s) = originalTime s \<and>
     nextTimer ((tick ^^ k) s) = nextTimer s"
proof (induction k)
  case 0
  then show ?case by simp
next
  case (Suc k)
  then have ih: "timeLeft ((tick ^^ k) s) = timeLeft s - int k" "timers ((tick ^^ k) s) = [i]"
     "isRunning ((tick ^^ k) s) = isRunning s" "interval ((tick ^^ k) s) = interval s"
     "alerts ((tick ^^ k) s) = alerts s" "originalTime ((tick ^^ k) s) = originalTime s"
     "nextTimer ((tick ^^ k) s) = nextTimer s"
    by simp_all
  from Suc.prems ih(1) have gt: "1 < timeLeft ((tick ^^ k) s)" by simp
  have step: "(tick ^^ Suc k) s = interval_callback ((tick ^^ k) s)"
    using tick_running [OF ih(2)] by simp
  show ?case
    unfolding step using callback_running [OF gt] ih by simp
qed

lemma startTimer_running:
  assumes "timer_inv s"
  shows "\<exists>i. timers (startTimer s) = [i] \<and> interval (startTimer s) = Some i"
    and "isRunning (startTimer s)"
    and "timeLeft (startTimer s) = timeLeft s"
    and "originalTime (startTimer s) = originalTime s"
    and "alerts (startTimer s) = alerts s"
  using assms
  by (auto simp: timer_inv_def startTimer_def split: bool.splits option.splits)

lemma completeTimer_fields:
  "timeLeft (completeTimer s) = originalTime s"
  "originalTime (completeTimer s) = originalTime s"
  "isRunning (completeTimer s) = False"
  "interval (completeTimer s) = interval s"
  "timers (completeTimer s) = clearInterval (interval s) (timers s)"
  "alerts (completeTimer s) = alerts s @ [''Time is up!'']"
  by (simp_all add: completeTimer_def Let_def)

lemma callback_expiry:
  assumes "timeLeft s = 1"
  shows "interval_callback s = completeTimer (updateDisplay (s\<lparr>timeLeft := 0\<rparr>))"
  using assms by (simp add: interval_callback_def Let_def)

lemma ticks_idle: "timers s = [] \<Longrightarrow> (tick ^^ j) s = s"
  by (induction j) (simp_all add: tick_idle)

subsection \<open>The invariant\<close>

lemma timer_inv_new: "timers page = [] \<Longrightarrow> timer_inv (PomodoroTimer_new page)"
  by (simp add: timer_inv_def PomodoroTimer_new_def updateDisplay_def Let_def)

lemma timer_inv_updateDisplay: "timer_inv (updateDisplay s) = timer_inv s"
  by (simp add: timer_inv_def split: bool.splits option.splits)

lemma timer_inv_pauseTimer: "timer_inv s \<Longrightarrow> timer_inv (pauseTimer s)"
  using pauseTimer_cancels [of s] by (simp add: timer_inv_def)

lemma timer_inv_startTimer: "timer_inv s \<Longrightarrow> timer_inv (startTimer s)"
  by (auto simp: timer_inv_def startTimer_def split: bool.splits option.splits)

text \<open>Every state that the page reaches from its construction, by clicks and seconds in
  any order, satisfies the invariant, provided that no interval of the timer's was
  registered before the script ran.\<close>

lemma timer_inv_timeLeft [simp]: "timer_inv (s\<lparr>timeLeft := t\<rparr>) = timer_inv s"
  by (simp add: timer_inv_def split: bool.splits option.splits)

lemma timer_inv_fields [simp]:
  "timer_inv (s\<lparr>originalTime := t\<rparr>) = timer_inv s"
  "timer_inv (s\<lparr>timerState := x\<rparr>) = timer_inv s"
  "timer_inv (s\<lparr>alerts := a\<rparr>) = timer_inv s"
  by (simp_all add: timer_inv_def split: bool.splits option.splits)

lemma timer_inv_setTime: "timer_inv s \<Longrightarrow> timer_inv (setTime m s)"
  by (simp add: setTime_def Let_def timer_inv_updateDisplay timer_inv_pauseTimer)

lemma timer_inv_resetTimer: "timer_inv s \<Longrightarrow> timer_inv (resetTimer s)"
  by (simp add: resetTimer_def Let_def timer_inv_updateDisplay timer_inv_pauseTimer)

lemma timer_inv_toggleTimer: "timer_inv s \<Longrightarrow> timer_inv (toggleTimer s)"
  by (simp add: toggleTimer_def timer_inv_pauseTimer timer_inv_startTimer)

lemma timer_inv_completeTimer: "timer_inv s \<Longrightarrow> timer_inv (completeTimer s)"
  by (simp add: completeTimer_def Let_def timer_inv_updateDisplay timer_inv_pauseTimer)

lemma timer_inv_callback: "timer_inv s \<Longrightarrow> timer_inv (interval_callback s)"
  by (simp add: interval_callback_def Let_def timer_inv_updateDisplay timer_inv_completeTimer)

lemma timer_inv_tick: "timer_inv s \<Longrightarrow> timer_inv (tick s)"
proof -
  assume i: "timer_inv s"
  show ?thesis
  proof (cases "timers s")
    case Nil
    with i tick_idle [of s] show ?thesis by simp
  next
    case (Cons j js)
    with i have "timers s = [j]"
      by (auto simp: timer_inv_def split: bool.splits option.splits)
    from tick_running [OF this] timer_inv_callback [OF i] show ?thesis by simp
  qed
qed

lemma timer_inv_step: "timer_inv s \<Longrightarrow> timer_inv (timer_step e s)"
  by (cases e) (simp_all add: timer_inv_setTime timer_inv_toggleTimer timer_inv_resetTimer timer_inv_tick)

lemma timer_inv_reachable:
  "timers page = [] \<Longrightarrow> timer_inv (fold timer_step es (PomodoroTimer_new page))"
proof -
  assume "timers page = []"
  then have "timer_inv (PomodoroTimer_new page)" by (rule timer_inv_new)
  then show ?thesis
    by (induction es arbitrary: page rule: rev_induct) (simp_all add: timer_inv_step)
qed

subsection \<open>Setting, pausing and running to the end\<close>

text \<open>
  Claim C1, as amended. \<^verbatim>\<open>setTime\<close> takes minutes, not seconds: for every argument
  \<open>m\<close>, also zero or negative, and every timer the page can reach, after \<^verbatim>\<open>setTime(m)\<close>
  no interval is registered any more, the timer is not running, and the remaining time and
  the duration are both \<open>60 * m\<close> seconds; a second passing then changes nothing.
\<close>

theorem setTime_sets_minutes:
  assumes "timer_inv s"
  shows "timers (setTime m s) = [] \<and> \<not> isRunning (setTime m s) \<and>
         timeLeft (setTime m s) = 60 * m \<and> originalTime (setTime m s) = 60 * m \<and>
         tick (setTime m s) = setTime m s"
proof -
  have t: "timers (setTime m s) = []"
    using pauseTimer_cancels [OF assms] by (simp add: setTime_def Let_def)
  have "\<not> isRunning (setTime m s)" "timeLeft (setTime m s) = 60 * m"
       "originalTime (setTime m s) = 60 * m"
    by (simp_all add: setTime_def Let_def)
  with t tick_idle [OF t] show ?thesis by simp
qed

text \<open>
  Claim C1 as it is written (remaining equals the argument) fails at the argument 1:
  \<^verbatim>\<open>setTime(1)\<close> on the freshly constructed timer leaves 60 seconds, not 1.
\<close>

theorem setTime_counterexample:
  "timeLeft (setTime 1 (PomodoroTimer_new blank_page)) = 60 \<and>
   timeLeft (setTime 1 (PomodoroTimer_new blank_page)) \<noteq> 1"
  by (simp add: setTime_def Let_def)

text \<open>The amended C1 at a running timer: fifteen minutes are 900 seconds, and the interval
  that \<^verbatim>\<open>startTimer\<close> registered is gone.\<close>

theorem setTime_sets_minutes_witness:
  "timer_inv (startTimer (PomodoroTimer_new blank_page)) \<and>
   timers (startTimer (PomodoroTimer_new blank_page)) = [1] \<and>
   timers (setTime 15 (startTimer (PomodoroTimer_new blank_page))) = [] \<and>
   \<not> isRunning (setTime 15 (startTimer (PomodoroTimer_new blank_page))) \<and>
   timeLeft (setTime 15 (startTimer (PomodoroTimer_new blank_page))) = 900 \<and>
   originalTime (setTime 15 (startTimer (PomodoroTimer_new blank_page))) = 900"
proof -
  have i: "timer_inv (startTimer (PomodoroTimer_new blank_page))"
    by (simp add: timer_inv_def startTimer_def PomodoroTimer_new_def blank_page_def)
  have "timers (startTimer (PomodoroTimer_new blank_page)) = [1]"
    by (simp add: startTimer_def PomodoroTimer_new_def blank_page_def)
  with i setTime_sets_minutes [OF i, of 15] show ?thesis by simp
qed

text \<open>
  Claim C2. From any reachable timer with \<open>d\<close> seconds remaining, starting it, letting
  \<open>k < d\<close> seconds pass and pausing leaves \<open>d - k\<close> seconds, the timer not running and no
  interval registered; and \<^verbatim>\<open>pauseTimer\<close> never changes the remaining time, in any
  state \<open>t\<close>.
\<close>

theorem start_ticks_pause:
  assumes "timer_inv s" and "int k < timeLeft s"
  shows "timeLeft (pauseTimer ((tick ^^ k) (startTimer s))) = timeLeft s - int k \<and>
         \<not> isRunning (pauseTimer ((tick ^^ k) (startTimer s))) \<and>
         timers (pauseTimer ((tick ^^ k) (startTimer s))) = [] \<and>
         timeLeft (pauseTimer t) = timeLeft t"
proof -
  from startTimer_running [OF assms(1)] obtain i
    where i: "timers (startTimer s) = [i]" "interval (startTimer s) = Some i"
      and tl: "timeLeft (startTimer s) = timeLeft s"
    by blast
  from assms(2) tl have "int k < timeLeft (startTimer s)" by simp
  from ticks_running [OF i(1) this] i(2) tl
  have "timeLeft ((tick ^^ k) (startTimer s)) = timeLeft s - int k"
       "timers ((tick ^^ k) (startTimer s)) = [i]"
       "interval ((tick ^^ k) (startTimer s)) = Some i"
    by simp_all
  then show ?thesis by (simp add: clearInterval_def)
qed

text \<open>C2 at a one-minute timer paused after three seconds: 57 seconds remain.\<close>

theorem start_ticks_pause_witness:
  "timer_inv (setTime 1 (PomodoroTimer_new blank_page)) \<and>
   int 3 < timeLeft (setTime 1 (PomodoroTimer_new blank_page)) \<and>
   timeLeft (pauseTimer ((tick ^^ 3) (startTimer (setTime 1 (PomodoroTimer_new blank_page))))) = 57 \<and>
   \<not> isRunning (pauseTimer ((tick ^^ 3) (startTimer (setTime 1 (PomodoroTimer_new blank_page))))) \<and>
   timers (pauseTimer ((tick ^^ 3) (startTimer (setTime 1 (PomodoroTimer_new blank_page))))) = []"
proof -
  let ?s = "setTime 1 (PomodoroTimer_new blank_page)"
  have i: "timer_inv ?s"
    by (simp add: timer_inv_def setTime_def Let_def PomodoroTimer_new_def blank_page_def
        clearInterval_def)
  have k: "int 3 < timeLeft ?s"
    by (simp add: setTime_def Let_def)
  have "timeLeft ?s = 60" by (simp add: setTime_def Let_def)
  with i k start_ticks_pause [OF i k] show ?thesis by simp
qed

text \<open>
  Claim C3. From a reachable timer whose remaining time and duration are both \<open>d > 0\<close>,
  starting it and letting \<open>d\<close> seconds pass shows exactly one alert, unregisters the
  interval, leaves the timer not running and restores the remaining time to \<open>d\<close>. No
  alert is shown before the \<open>d\<close>-th second, during which the timer stays running, and
  any number of further seconds changes nothing, so the alert is shown once.
\<close>

theorem run_to_completion:
  assumes "timer_inv s" and "0 < d" and "timeLeft s = d" and "originalTime s = d"
  shows "alerts ((tick ^^ nat d) (startTimer s)) = alerts s @ [''Time is up!''] \<and>
         timers ((tick ^^ nat d) (startTimer s)) = [] \<and>
         \<not> isRunning ((tick ^^ nat d) (startTimer s)) \<and>
         timeLeft ((tick ^^ nat d) (startTimer s)) = d \<and>
         (\<forall>k < nat d. alerts ((tick ^^ k) (startTimer s)) = alerts s \<and>
                      isRunning ((tick ^^ k) (startTimer s))) \<and>
         (\<forall>j. (tick ^^ (nat d + j)) (startTimer s) = (tick ^^ nat d) (startTimer s))"
proof -
  let ?r = "startTimer s"
  from startTimer_running [OF assms(1)] obtain i
    where i: "timers ?r = [i]" "interval ?r = Some i"
      and r: "timeLeft ?r = timeLeft s" "originalTime ?r = originalTime s"
             "alerts ?r = alerts s" "isRunning ?r"
    by blast
  have before: "timeLeft ((tick ^^ k) ?r) = d - int k \<and> timers ((tick ^^ k) ?r) = [i] \<and>
      isRunning ((tick ^^ k) ?r) \<and> interval ((tick ^^ k) ?r) = Some i \<and>
      alerts ((tick ^^ k) ?r) = alerts s \<and> originalTime ((tick ^^ k) ?r) = d"
    if "k < nat d" for k
  proof -
    from that r(1) assms(3) have "int k < timeLeft ?r" by simp
    from ticks_running [OF i(1) this] i(2) r assms(3,4) show ?thesis by simp
  qed
  obtain n where n: "nat d = Suc n" using assms(2) by (cases "nat d") simp_all
  let ?t = "(tick ^^ n) ?r"
  from before [of n] n
  have t: "timeLeft ?t = 1" "timers ?t = [i]" "interval ?t = Some i"
          "alerts ?t = alerts s" "originalTime ?t = d"
    by simp_all
  have last: "(tick ^^ nat d) ?r = completeTimer (updateDisplay (?t\<lparr>timeLeft := 0\<rparr>))"
    using tick_running [OF t(2)] callback_expiry [OF t(1)] n by simp
  have fin: "alerts ((tick ^^ nat d) ?r) = alerts s @ [''Time is up!'']"
            "timers ((tick ^^ nat d) ?r) = []"
            "\<not> isRunning ((tick ^^ nat d) ?r)"
            "timeLeft ((tick ^^ nat d) ?r) = d"
    unfolding last using t by (simp_all add: completeTimer_fields clearInterval_def)
  have after: "(tick ^^ (nat d + j)) ?r = (tick ^^ nat d) ?r" for j
    using ticks_idle [OF fin(2), of j] by (simp add: funpow_add add.commute)
  from fin before after show ?thesis by blast
qed

text \<open>C3 at a one-minute timer: one alert after sixty seconds and none after fifty-nine.\<close>

theorem run_to_completion_witness:
  "timer_inv (setTime 1 (PomodoroTimer_new blank_page)) \<and>
   timeLeft (setTime 1 (PomodoroTimer_new blank_page)) = 60 \<and>
   originalTime (setTime 1 (PomodoroTimer_new blank_page)) = 60 \<and>
   alerts ((tick ^^ 60) (startTimer (setTime 1 (PomodoroTimer_new blank_page)))) = [''Time is up!''] \<and>
   timers ((tick ^^ 60) (startTimer (setTime 1 (PomodoroTimer_new blank_page)))) = [] \<and>
   timeLeft ((tick ^^ 60) (startTimer (setTime 1 (PomodoroTimer_new blank_page)))) = 60 \<and>
   alerts ((tick ^^ 59) (startTimer (setTime 1 (PomodoroTimer_new blank_page)))) = []"
proof -
  let ?s = "setTime 1 (PomodoroTimer_new blank_page)"
  have i: "timer_inv ?s"
    by (simp add: timer_inv_def setTime_def Let_def PomodoroTimer_new_def blank_page_def
        clearInterval_def)
  have t: "timeLeft ?s = 60" and o: "originalTime ?s = 60" and a: "alerts ?s = []"
    by (simp_all add: setTime_def Let_def PomodoroTimer_new_def blank_page_def)
  have d: "(0::int) < 60" by simp
  from run_to_completion [OF i d t o] i t o a show ?thesis by simp
qed

subsection \<open>The display\<close>

lemma digit_char_0 [simp]: "digit_char 0 = CHR ''0''"
  by (simp add: digit_char_def)

lemma digit_char_inj: "a < 10 \<Longrightarrow> b < 10 \<Longrightarrow> digit_char a = digit_char b \<longleftrightarrow> a = b"
proof -
  assume a: "a < 10" and b: "b < 10"
  have v: "of_char (digit_char n) = 48 + n" if "n < 10" for n
  proof -
    from that have "n \<in> {0, 1, 2, 3, 4, 5, 6, 7, 8, 9}" by auto
    then show ?thesis by (auto simp: digit_char_def)
  qed
  from v [OF a] v [OF b] show ?thesis by (metis add_left_cancel)
qed

lemma nat_toString_digit: "n < 10 \<Longrightarrow> nat_toString n = [digit_char n]"
  by (simp add: nat_toString.simps)

lemma nat_toString_two: "10 \<le> n \<Longrightarrow> n < 100 \<Longrightarrow>
    nat_toString n = [digit_char (n div 10), digit_char (n mod 10)]"
  by (subst nat_toString.simps) (simp add: nat_toString_digit)

lemma nat_toString_not_Nil [simp]: "nat_toString n \<noteq> []"
  by (subst nat_toString.simps) simp

lemma hd_nat_toString: "0 < n \<Longrightarrow> hd (nat_toString n) \<noteq> CHR ''0''"
proof (induction n rule: nat_toString.induct)
  case (1 n)
  show ?case
  proof (cases "n < 10")
    case True
    with "1.prems" digit_char_inj [of n 0] show ?thesis
      by (simp add: nat_toString_digit)
  next
    case False
    then have "0 < n div 10" by simp
    with "1.IH" False have "hd (nat_toString (n div 10)) \<noteq> CHR ''0''" by simp
    with False show ?thesis
      by (subst nat_toString.simps) simp
  qed
qed

lemma padStart_seconds:
  "n < 60 \<Longrightarrow> padStart 2 (CHR ''0'') (nat_toString n) = [digit_char (n div 10), digit_char (n mod 10)]"
  by (cases "n < 10") (simp_all add: padStart_def nat_toString_digit nat_toString_two)

lemma js_rem_nonneg: "0 \<le> a \<Longrightarrow> 0 < b \<Longrightarrow> js_rem a b = a mod b"
  by (cases "a = 0") (simp_all add: js_rem_def)

text \<open>
  Claim C5. For every remaining time \<open>r \<ge> 0\<close> the display shows the decimal form of
  \<open>r div 60\<close>, a colon and the two decimal digits of \<open>r mod 60\<close>. The minutes are not
  padded: their first digit is not a zero once \<open>r\<close> is at least 60, and they are the
  single digit 0 below that. 125 seconds show as 2:05 and 59 seconds as 0:59.
\<close>

theorem display_format:
  assumes "0 \<le> r"
  shows "timeDisplay (updateDisplay (s\<lparr>timeLeft := r\<rparr>)) =
           nat_toString (nat (r div 60)) @ '':'' @
           [digit_char (nat (r mod 60) div 10), digit_char (nat (r mod 60) mod 10)] \<and>
         (60 \<le> r \<longrightarrow> hd (nat_toString (nat (r div 60))) \<noteq> CHR ''0'') \<and>
         (r < 60 \<longrightarrow> nat_toString (nat (r div 60)) = ''0'') \<and>
         timeDisplay (updateDisplay (s\<lparr>timeLeft := 125\<rparr>)) = ''2:05'' \<and>
         timeDisplay (updateDisplay (s\<lparr>timeLeft := 59\<rparr>)) = ''0:59''"
proof -
  have sec: "padStart 2 (CHR ''0'') (toString (js_rem r 60)) =
      [digit_char (nat (r mod 60) div 10), digit_char (nat (r mod 60) mod 10)]"
  proof -
    have "nat (r mod 60) < 60" by simp
    moreover have "\<not> r mod 60 < 0" by (simp add: not_less)
    ultimately show ?thesis
      using padStart_seconds [of "nat (r mod 60)"] assms
      by (simp add: js_rem_nonneg toString_def)
  qed
  have mins: "toString (r div 60) = nat_toString (nat (r div 60))"
    using assms by (simp add: toString_def pos_imp_zdiv_nonneg_iff)
  have general: "timeDisplay (updateDisplay (s\<lparr>timeLeft := r\<rparr>)) =
           nat_toString (nat (r div 60)) @ '':'' @
           [digit_char (nat (r mod 60) div 10), digit_char (nat (r mod 60) mod 10)]"
    by (simp add: updateDisplay_def Let_def sec mins)
  have nopad: "hd (nat_toString (nat (r div 60))) \<noteq> CHR ''0''" if "60 \<le> r"
  proof -
    from that have "0 < r div 60" by (simp add: pos_imp_zdiv_pos_iff)
    then show ?thesis by (simp add: hd_nat_toString)
  qed
  have zero: "nat_toString (nat (r div 60)) = ''0''" if "r < 60"
    using that assms by (simp add: nat_toString_digit)
  have e1: "timeDisplay (updateDisplay (s\<lparr>timeLeft := 125\<rparr>)) = ''2:05''"
    by (simp add: updateDisplay_def Let_def toString_def js_rem_def padStart_def
        nat_toString_digit digit_char_def)
  have e2: "timeDisplay (updateDisplay (s\<lparr>timeLeft := 59\<rparr>)) = ''0:59''"
    by (simp add: updateDisplay_def Let_def toString_def js_rem_def padStart_def
        nat_toString_digit nat_toString_two digit_char_def)
  from general nopad zero e1 e2 show ?thesis by blast
qed

text \<open>C5 at 3725 seconds: 62 minutes (two digits, unpadded) and 5 seconds (padded).\<close>

theorem display_format_witness:
  "(0::int) \<le> 3725 \<and>
   timeDisplay (updateDisplay (blank_page\<lparr>timeLeft := 3725\<rparr>)) = ''62:05''"
  using display_format [of 3725 blank_page]
  by (simp add: nat_toString_two digit_char_def)

section \<open>Properties of the image store\<close>

lemma store_delete_fresh: "k \<notin> item_id ` set rs \<Longrightarrow> store_delete k rs = rs"
  unfolding store_delete_def filter_id_conv by (metis imageI)


lemma set_store_add: "store_add r rs = Some rs' \<Longrightarrow> set rs' = insert r (set rs)"
  by (auto simp: store_add_def set_insort_key split: if_splits)




text \<open>
  Claim C6. On a store whose database opened, \<^verbatim>\<open>deleteImage\<close> resolves for every id.
  Afterwards the store holds the records with other ids, unchanged and in their order, and
  none with this id; if none had it, the store is as before; and deleting twice is the same
  as deleting once.
\<close>

theorem deleteImage_idempotent:
  assumes "opened st"
  shows "fst (deleteImage k st) = Resolved () \<and>
         images (snd (deleteImage k st)) = filter (\<lambda>r. item_id r \<noteq> k) (images st) \<and>
         k \<notin> item_id ` set (images (snd (deleteImage k st))) \<and>
         (k \<notin> item_id ` set (images st) \<longrightarrow> snd (deleteImage k st) = st) \<and>
         deleteImage k (snd (deleteImage k st)) = deleteImage k st"
proof -
  have "store_delete k (images st) = images st" if "k \<notin> item_id ` set (images st)"
    using that by (rule store_delete_fresh)
  moreover have "store_delete k (store_delete k rs) = store_delete k rs" for rs
    by (simp add: store_delete_def)
  moreover have "k \<notin> item_id ` set (store_delete k rs)" for rs
    by (auto simp: store_delete_def)
  ultimately show ?thesis
    using assms by (simp add: deleteImage_def store_delete_def)
qed

text \<open>C6 on a store with one record, of id 5: deleting 5 empties it, deleting 9 leaves
  it as it is, and both resolve.\<close>

theorem deleteImage_idempotent_witness:
  "opened store0 \<and>
   fst (deleteImage 5 store0) = Resolved () \<and> images (snd (deleteImage 5 store0)) = [] \<and>
   fst (deleteImage 9 store0) = Resolved () \<and> snd (deleteImage 9 store0) = store0"
proof -
  have o: "opened store0" and i: "images store0 =
      [\<lparr>item_id = 5, item_name = ''b.png'', item_data = ''data:image/png;base64,AA==''\<rparr>]"
    by (simp_all add: store0_def ImageStorage_new_def)
  from deleteImage_idempotent [OF o, of 5] deleteImage_idempotent [OF o, of 9] o i
  show ?thesis by simp
qed

section \<open>Properties of the JSON functions\<close>

subsection \<open>Parsing what \<open>stringify\<close> wrote\<close>

text \<open>Strings: \<open>parse_chars\<close> reads back what \<open>quote\<close> wrote, character by
  character.\<close>

lemma hex_val_hex_char: "k < 16 \<Longrightarrow> hex_val (hex_char k) = Some k"
proof -
  assume "k < 16"
  then have "k = 0 \<or> k = 1 \<or> k = 2 \<or> k = 3 \<or> k = 4 \<or> k = 5 \<or> k = 6 \<or> k = 7 \<or>
      k = 8 \<or> k = 9 \<or> k = 10 \<or> k = 11 \<or> k = 12 \<or> k = 13 \<or> k = 14 \<or> k = 15"
    by presburger
  then show ?thesis by (elim disjE) (simp_all add: hex_val_def hex_char_def)
qed

lemma parse_chars_plain:
  "c \<noteq> CHR 0x22 \<Longrightarrow> c \<noteq> CHR 0x5C \<Longrightarrow> \<not> (of_char c :: nat) < 32 \<Longrightarrow>
   parse_chars (c # rest) = cons_char c (parse_chars rest)"
  by simp

lemma parse_chars_escape:
  "e \<noteq> CHR ''u'' \<Longrightarrow> unescape e = Some d \<Longrightarrow>
   parse_chars (CHR 0x5C # e # rest) = cons_char d (parse_chars rest)"
  by simp

lemma parse_chars_unicode:
  assumes "n < 32"
  shows "parse_chars (CHR 0x5C # CHR ''u'' # CHR ''0'' # CHR ''0'' # hex_char (n div 16) #
           hex_char (n mod 16) # rest) = cons_char (char_of n) (parse_chars rest)"
proof -
  have z: "hex_val (CHR ''0'') = Some 0" by (simp add: hex_val_def)
  have a: "hex_val (hex_char (n div 16)) = Some (n div 16)"
    using assms by (intro hex_val_hex_char) simp
  have b: "hex_val (hex_char (n mod 16)) = Some (n mod 16)"
    by (intro hex_val_hex_char) simp
  show ?thesis using assms by (simp add: z a b)
qed

lemma of_char_eq_iff: "(of_char c :: nat) = of_char d \<longleftrightarrow> c = d"
  by (metis char_of_char)

lemma parse_chars_quote_char:
  "parse_chars (quote_char c @ rest) = cons_char c (parse_chars rest)"
proof -
  let ?n = "of_char c :: nat"
  consider (q) "c = CHR 0x22" | (bs) "c = CHR 0x5C" | (b) "c = CHR 0x08" | (f) "c = CHR 0x0C"
    | (n) "c = CHR 0x0A" | (r) "c = CHR 0x0D" | (t) "c = CHR 0x09"
    | (ctl) "c \<notin> {CHR 0x22, CHR 0x5C, CHR 0x08, CHR 0x0C, CHR 0x0A, CHR 0x0D, CHR 0x09}" "?n < 32"
    | (plain) "c \<notin> {CHR 0x22, CHR 0x5C, CHR 0x08, CHR 0x0C, CHR 0x0A, CHR 0x0D, CHR 0x09}" "\<not> ?n < 32"
    by blast
  then show ?thesis
  proof cases
    case ctl
    have ne: "?n \<noteq> 0x22" "?n \<noteq> 0x5C" "?n \<noteq> 8" "?n \<noteq> 12" "?n \<noteq> 10" "?n \<noteq> 13" "?n \<noteq> 9"
      using ctl(1) of_char_eq_iff [of c "CHR 0x22"] of_char_eq_iff [of c "CHR 0x5C"]
        of_char_eq_iff [of c "CHR 0x08"] of_char_eq_iff [of c "CHR 0x0C"]
        of_char_eq_iff [of c "CHR 0x0A"] of_char_eq_iff [of c "CHR 0x0D"]
        of_char_eq_iff [of c "CHR 0x09"]
      by simp_all
    have "quote_char c = [CHR 0x5C, CHR ''u'', CHR ''0'', CHR ''0'', hex_char (?n div 16), hex_char (?n mod 16)]"
      using ne ctl(2) by (simp add: quote_char_def Let_def)
    with parse_chars_unicode [OF ctl(2), of rest] show ?thesis by simp
  next
    case plain
    have ne: "?n \<noteq> 0x22" "?n \<noteq> 0x5C" "?n \<noteq> 8" "?n \<noteq> 12" "?n \<noteq> 10" "?n \<noteq> 13" "?n \<noteq> 9"
      using plain(1) of_char_eq_iff [of c "CHR 0x22"] of_char_eq_iff [of c "CHR 0x5C"]
        of_char_eq_iff [of c "CHR 0x08"] of_char_eq_iff [of c "CHR 0x0C"]
        of_char_eq_iff [of c "CHR 0x0A"] of_char_eq_iff [of c "CHR 0x0D"]
        of_char_eq_iff [of c "CHR 0x09"]
      by simp_all
    have "quote_char c = [c]"
      using ne plain(2) by (simp add: quote_char_def Let_def)
    with plain show ?thesis by simp
  qed (simp_all add: quote_char_def unescape_def)
qed

lemma parse_chars_quote:
  "parse_chars (concat (map quote_char s) @ CHR 0x22 # rest) = Inr (s, rest)"
proof (induction s)
  case Nil
  show ?case by simp
next
  case (Cons c s)
  then show ?case by (simp add: parse_chars_quote_char cons_char_def)
qed

text \<open>Numbers: the digits of \<open>toString\<close> are read back to the same integer, given that
  no digit follows them.\<close>

lemma digit_char_props:
  assumes "k < 10"
  shows "is_digit (digit_char k)" and "digit_val (digit_char k) = k"
    and "digit_char k = CHR ''0'' \<longleftrightarrow> k = 0"
proof -
  from assms have "k = 0 \<or> k = 1 \<or> k = 2 \<or> k = 3 \<or> k = 4 \<or> k = 5 \<or> k = 6 \<or> k = 7 \<or>
      k = 8 \<or> k = 9"
    by presburger
  then show "is_digit (digit_char k)" and "digit_val (digit_char k) = k"
    and "digit_char k = CHR ''0'' \<longleftrightarrow> k = 0"
    by (elim disjE; simp add: is_digit_def digit_val_def digit_char_def)+
qed

lemma nat_toString_digits: "\<forall>c \<in> set (nat_toString n). is_digit c"
proof (induction n rule: nat_toString.induct)
  case (1 n)
  show ?case
  proof (cases "n < 10")
    case True
    then show ?thesis
      by (subst nat_toString.simps) (simp add: digit_char_props)
  next
    case False
    with "1.IH" show ?thesis
      by (subst nat_toString.simps) (simp add: digit_char_props)
  qed
qed

lemma digits_val_snoc: "digits_val (ds @ [c]) = 10 * digits_val ds + digit_val c"
  by (simp add: digits_val_def)

lemma digits_val_nat_toString: "digits_val (nat_toString n) = n"
proof (induction n rule: nat_toString.induct)
  case (1 n)
  show ?case
  proof (cases "n < 10")
    case True
    then show ?thesis
      by (subst nat_toString.simps) (simp add: digits_val_def digit_char_props)
  next
    case False
    with "1.IH" have "digits_val (nat_toString (n div 10)) = n div 10" by simp
    with False show ?thesis
      by (subst nat_toString.simps) (simp add: digits_val_snoc digit_char_props)
  qed
qed

lemma nat_toString_Cons: "\<exists>d ds. nat_toString n = d # ds \<and> is_digit d \<and> (d = CHR ''0'' \<longleftrightarrow> n = 0)"
proof (induction n rule: nat_toString.induct)
  case (1 n)
  show ?case
  proof (cases "n < 10")
    case True
    then show ?thesis
      by (subst nat_toString.simps) (simp add: digit_char_props)
  next
    case False
    from "1.IH" [OF False] obtain d ds where "nat_toString (n div 10) = d # ds" "is_digit d"
      "d = CHR ''0'' \<longleftrightarrow> n div 10 = 0"
      by auto
    with False show ?thesis
      by (subst nat_toString.simps) auto
  qed
qed

lemma nat_toString_0: "nat_toString 0 = ''0''"
  by (simp add: nat_toString.simps digit_char_def)

lemma ends_number_digit: "ends_number rest \<Longrightarrow> rest = [] \<or> \<not> is_digit (hd rest)"
  by (auto simp: ends_number_def is_digit_def)

lemma parse_int_nat_toString:
  assumes "ends_number rest"
  shows "parse_int (nat_toString n @ rest) = Inr (n, rest)"
proof -
  from nat_toString_Cons [of n] obtain d ds where
    d: "nat_toString n = d # ds" "is_digit d" "d = CHR ''0'' \<longleftrightarrow> n = 0"
    by blast
  show ?thesis
  proof (cases "n = 0")
    case True
    then show ?thesis by (simp add: nat_toString_0 parse_int_def is_digit_def)
  next
    case False
    have tw: "takeWhile is_digit (nat_toString n @ rest) = nat_toString n"
      using nat_toString_digits [of n] ends_number_digit [OF assms]
      by (cases rest) (simp_all add: takeWhile_append2)
    have dw: "dropWhile is_digit (nat_toString n @ rest) = rest"
      using nat_toString_digits [of n] ends_number_digit [OF assms]
      by (cases rest) (simp_all add: dropWhile_append2)
    from False d have "d \<noteq> CHR ''0''" by simp
    with d(1,2) have "parse_int (nat_toString n @ rest) =
        Inr (digits_val (takeWhile is_digit (nat_toString n @ rest)),
             dropWhile is_digit (nat_toString n @ rest))"
      by (simp add: parse_int_def)
    with tw dw show ?thesis by (simp add: digits_val_nat_toString)
  qed
qed

lemma parse_number_toString:
  assumes "ends_number rest"
  shows "parse_number (toString i @ rest) = Inr (JNum i, rest)"
proof -
  have nd: "\<not> (rest \<noteq> [] \<and> (hd rest = CHR ''.'' \<or> hd rest = CHR ''e'' \<or> hd rest = CHR ''E''))"
    using assms by (auto simp: ends_number_def)
  show ?thesis
  proof (cases "i < 0")
    case True
    then have "toString i @ rest = CHR ''-'' # nat_toString (nat (- i)) @ rest"
      by (simp add: toString_def)
    with True nd parse_int_nat_toString [OF assms, of "nat (- i)"] show ?thesis
      by (simp add: parse_number_def)
  next
    case False
    from nat_toString_Cons [of "nat i"] obtain d ds where
      d: "nat_toString (nat i) = d # ds" "is_digit d"
      by blast
    from d(2) have "d \<noteq> CHR ''-''" by (auto simp: is_digit_def)
    moreover from parse_int_nat_toString [OF assms, of "nat i"] d(1)
    have "parse_int (d # ds @ rest) = Inr (nat i, rest)" by simp
    ultimately show ?thesis
      using False nd d(1) by (simp add: parse_number_def toString_def)
  qed
qed

text \<open>Values: one step of each production on the text that \<open>stringify\<close> writes, and
  then all of them together, by induction on the value.\<close>

lemma skip_ws_Cons: "\<not> is_ws c \<Longrightarrow> skip_ws (c # r) = c # r"
  by (simp add: skip_ws_def)

lemma value_step_null: "value_step e m (''null'' @ rest) = Inr (JNull, rest)"
  by (simp add: value_step_def skip_ws_def is_ws_def is_digit_def parse_literal_def)

lemma value_step_true: "value_step e m (''true'' @ rest) = Inr (JBool True, rest)"
  by (simp add: value_step_def skip_ws_def is_ws_def is_digit_def parse_literal_def)

lemma value_step_false: "value_step e m (''false'' @ rest) = Inr (JBool False, rest)"
  by (simp add: value_step_def skip_ws_def is_ws_def is_digit_def parse_literal_def)

lemma toString_Cons: "\<exists>c cs. toString i = c # cs \<and> (c = CHR ''-'' \<or> is_digit c)"
  using nat_toString_Cons [of "nat i"] by (auto simp: toString_def)

lemma value_step_number:
  assumes "ends_number rest"
  shows "value_step e m (toString i @ rest) = Inr (JNum i, rest)"
proof -
  from toString_Cons [of i] obtain c cs where
    c: "toString i = c # cs" "c = CHR ''-'' \<or> is_digit c"
    by blast
  from c(2) have "\<not> is_ws c" "c \<noteq> CHR ''[''" "c \<noteq> CHR ''{''" "c \<noteq> CHR 0x22"
    by (auto simp: is_ws_def is_digit_def)
  with c have "value_step e m (toString i @ rest) = parse_number (toString i @ rest)"
    by (simp add: value_step_def skip_ws_Cons)
  with parse_number_toString [OF assms] show ?thesis by simp
qed

lemma value_step_string: "value_step e m (quote s @ rest) = Inr (JStr s, rest)"
  by (simp add: value_step_def quote_def skip_ws_def is_ws_def parse_chars_quote)

lemma value_step_empty_array: "value_step e m (''[]'' @ rest) = Inr (JArr [], rest)"
  by (simp add: value_step_def skip_ws_def is_ws_def)

lemma value_step_empty_object: "value_step e m (''{}'' @ rest) = Inr (JObj [], rest)"
  by (simp add: value_step_def skip_ws_def is_ws_def)

lemma value_step_array:
  "skip_ws r = c1 # r1 \<Longrightarrow> c1 \<noteq> CHR '']'' \<Longrightarrow> e r = Inr (xs, r2) \<Longrightarrow>
   value_step e m (CHR ''['' # r) = Inr (JArr xs, r2)"
  by (simp add: value_step_def skip_ws_Cons is_ws_def)

lemma value_step_object:
  "skip_ws r = c1 # r1 \<Longrightarrow> c1 \<noteq> CHR ''}'' \<Longrightarrow> m r = Inr (ps, r2) \<Longrightarrow>
   value_step e m (CHR ''{'' # r) =
     Inr (JObj (foldl (\<lambda>obj p. obj_set (fst p) (snd p) obj) [] ps), r2)"
  by (simp add: value_step_def skip_ws_Cons is_ws_def)

lemma elements_step_last:
  "val cs = Inr (x, CHR '']'' # rest) \<Longrightarrow> elements_step val e cs = Inr ([x], rest)"
  by (simp add: elements_step_def skip_ws_Cons is_ws_def)

lemma elements_step_more:
  "val cs = Inr (x, CHR '','' # r1) \<Longrightarrow> e r1 = Inr (xs, r2) \<Longrightarrow>
   elements_step val e cs = Inr (x # xs, r2)"
  by (simp add: elements_step_def skip_ws_Cons is_ws_def)

lemma members_step_last:
  "val r2 = Inr (v, CHR ''}'' # rest) \<Longrightarrow>
   members_step val m (quote k @ CHR '':'' # r2) = Inr ([(k, v)], rest)"
  by (simp add: members_step_def quote_def skip_ws_Cons is_ws_def parse_chars_quote)

lemma members_step_more:
  "val r2 = Inr (v, CHR '','' # r4) \<Longrightarrow> m r4 = Inr (ps, r5) \<Longrightarrow>
   members_step val m (quote k @ CHR '':'' # r2) = Inr ((k, v) # ps, r5)"
  by (simp add: members_step_def quote_def skip_ws_Cons is_ws_def parse_chars_quote)

lemma obj_set_fresh: "k \<notin> fst ` set ps \<Longrightarrow> obj_set k v ps = ps @ [(k, v)]"
  by (induction ps) auto

lemma foldl_obj_set_distinct:
  "distinct (map fst ps) \<Longrightarrow> fst ` set acc \<inter> fst ` set ps = {} \<Longrightarrow>
   foldl (\<lambda>obj p. obj_set (fst p) (snd p) obj) acc ps = acc @ ps"
proof (induction ps arbitrary: acc)
  case Nil
  show ?case by simp
next
  case (Cons p ps)
  from Cons.prems(2) have fresh: "fst p \<notin> fst ` set acc" by auto
  have step: "obj_set (fst p) (snd p) acc = acc @ [p]"
    using obj_set_fresh [OF fresh] by simp
  have "fst ` set (acc @ [p]) \<inter> fst ` set ps = {}"
    using Cons.prems by auto
  with Cons.IH [of "acc @ [p]"] Cons.prems(1) step show ?case by simp
qed

lemma stringify_Cons:
  "\<exists>c cs. stringify v = c # cs \<and> \<not> is_ws c \<and> c \<noteq> CHR '']'' \<and> c \<noteq> CHR ''}''"
proof (cases v)
  case (JNum i)
  from toString_Cons [of i] show ?thesis
    unfolding JNum by (auto simp: is_ws_def is_digit_def)
qed (auto simp: is_ws_def quote_def)

lemma parse_stringify_mutual:
  "(\<forall>n rest. fuel v \<le> n \<longrightarrow> ends_number rest \<longrightarrow> distinct_keys v \<longrightarrow>
      parse_value n (stringify v @ rest) = Inr (v, rest))"
  "(\<forall>n rest. xs \<noteq> [] \<longrightarrow> fuel_elements xs \<le> n \<longrightarrow> distinct_keys_elements xs \<longrightarrow>
      parse_elements n (stringify_elements xs @ CHR '']'' # rest) = Inr (xs, rest))"
  "(\<forall>n rest. ps \<noteq> [] \<longrightarrow> fuel_members ps \<le> n \<longrightarrow> distinct_keys_members ps \<longrightarrow>
      parse_members n (stringify_members ps @ CHR ''}'' # rest) = Inr (ps, rest))"
proof (induction v and xs and ps rule: stringify_stringify_elements_stringify_members.induct)
  case 1
  show ?case
  proof (intro allI impI)
    fix n rest assume "fuel JNull \<le> n"
    then obtain k where "n = Suc k" by (cases n) simp_all
    then show "parse_value n (stringify JNull @ rest) = Inr (JNull, rest)"
      using value_step_null by simp
  qed
next
  case (2 b)
  show ?case
  proof (intro allI impI)
    fix n rest assume "fuel (JBool b) \<le> n"
    then obtain k where "n = Suc k" by (cases n) simp_all
    then show "parse_value n (stringify (JBool b) @ rest) = Inr (JBool b, rest)"
      using value_step_true value_step_false by (cases b) simp_all
  qed
next
  case (3 i)
  show ?case
  proof (intro allI impI)
    fix n rest assume "fuel (JNum i) \<le> n" and e: "ends_number rest"
    then obtain k where "n = Suc k" by (cases n) simp_all
    then show "parse_value n (stringify (JNum i) @ rest) = Inr (JNum i, rest)"
      using value_step_number [OF e] by simp
  qed
next
  case (4 s)
  show ?case
  proof (intro allI impI)
    fix n rest assume "fuel (JStr s) \<le> n"
    then obtain k where "n = Suc k" by (cases n) simp_all
    then show "parse_value n (stringify (JStr s) @ rest) = Inr (JStr s, rest)"
      using value_step_string by simp
  qed
next
  case (5 xs)
  show ?case
  proof (intro allI impI)
    fix n rest
    assume f: "fuel (JArr xs) \<le> n" and d: "distinct_keys (JArr xs)"
    from f obtain k where k: "n = Suc k" "fuel_elements xs \<le> k" by (cases n) simp_all
    show "parse_value n (stringify (JArr xs) @ rest) = Inr (JArr xs, rest)"
    proof (cases xs)
      case Nil
      with k value_step_empty_array [of "parse_elements k" "parse_members k" rest]
      show ?thesis by simp
    next
      case (Cons y ys)
      from stringify_Cons [of y] obtain c cs where
        c: "stringify y = c # cs" "\<not> is_ws c" "c \<noteq> CHR '']''"
        by blast
      let ?r = "stringify_elements xs @ CHR '']'' # rest"
      from c Cons have sk: "skip_ws ?r = c # tl ?r"
        by (simp add: skip_ws_Cons)
      from "5.IH" Cons k d have el: "parse_elements k ?r = Inr (xs, rest)" by simp
      from value_step_array [where e = "parse_elements k" and m = "parse_members k", OF sk c(3) el] k show ?thesis by simp
    qed
  qed
next
  case (6 ps)
  show ?case
  proof (intro allI impI)
    fix n rest
    assume f: "fuel (JObj ps) \<le> n" and d: "distinct_keys (JObj ps)"
    from f obtain k where k: "n = Suc k" "fuel_members ps \<le> k" by (cases n) simp_all
    show "parse_value n (stringify (JObj ps) @ rest) = Inr (JObj ps, rest)"
    proof (cases ps)
      case Nil
      with k value_step_empty_object [of "parse_elements k" "parse_members k" rest]
      show ?thesis by simp
    next
      case (Cons q qs)
      let ?r = "stringify_members ps @ CHR ''}'' # rest"
      from Cons have sk: "skip_ws ?r = CHR 0x22 # tl ?r"
        by (simp add: quote_def skip_ws_Cons is_ws_def)
      have ne: "CHR 0x22 \<noteq> CHR ''}''" by simp
      from "6.IH" Cons k d have me: "parse_members k ?r = Inr (ps, rest)" by simp
      from d have "foldl (\<lambda>obj p. obj_set (fst p) (snd p) obj) [] ps = ps"
        using foldl_obj_set_distinct [of ps "[]"] by simp
      with value_step_object [where e = "parse_elements k" and m = "parse_members k", OF sk ne me] k show ?thesis by simp
    qed
  qed
next
  case 7
  show ?case by simp
next
  case (8 x xs)
  show ?case
  proof (intro allI impI)
    fix n rest
    assume f: "fuel_elements (x # xs) \<le> n" and d: "distinct_keys_elements (x # xs)"
    from f obtain k where k: "n = Suc k" "fuel x \<le> k" "fuel_elements xs \<le> k"
      by (cases n) simp_all
    show "parse_elements n (stringify_elements (x # xs) @ CHR '']'' # rest) = Inr (x # xs, rest)"
    proof (cases "xs = []")
      case True
      have "ends_number (CHR '']'' # rest)" by (simp add: ends_number_def)
      with "8.IH"(1) k d have "parse_value k (stringify x @ CHR '']'' # rest) = Inr (x, CHR '']'' # rest)"
        by simp
      from elements_step_last [where val = "parse_value k" and e = "parse_elements k", OF this] k True show ?thesis by simp
    next
      case False
      let ?r1 = "stringify_elements xs @ CHR '']'' # rest"
      have "ends_number (CHR '','' # ?r1)" by (simp add: ends_number_def)
      with "8.IH"(1) k d have v: "parse_value k (stringify x @ CHR '','' # ?r1) = Inr (x, CHR '','' # ?r1)"
        by simp
      from "8.IH"(2) False k d have e: "parse_elements k ?r1 = Inr (xs, rest)" by simp
      from elements_step_more [where val = "parse_value k" and e = "parse_elements k", OF v e] k False show ?thesis by simp
    qed
  qed
next
  case 9
  show ?case by simp
next
  case (10 p ps)
  show ?case
  proof (intro allI impI)
    fix n rest
    assume f: "fuel_members (p # ps) \<le> n" and d: "distinct_keys_members (p # ps)"
    from f obtain k where k: "n = Suc k" "fuel (snd p) \<le> k" "fuel_members ps \<le> k"
      by (cases n) simp_all
    show "parse_members n (stringify_members (p # ps) @ CHR ''}'' # rest) = Inr (p # ps, rest)"
    proof (cases "ps = []")
      case True
      have "ends_number (CHR ''}'' # rest)" by (simp add: ends_number_def)
      with "10.IH"(1) k d
      have "parse_value k (stringify (snd p) @ CHR ''}'' # rest) = Inr (snd p, CHR ''}'' # rest)"
        by simp
      from members_step_last [where val = "parse_value k" and m = "parse_members k" and k = "fst p", OF this] k True
      show ?thesis by simp
    next
      case False
      let ?r4 = "stringify_members ps @ CHR ''}'' # rest"
      have "ends_number (CHR '','' # ?r4)" by (simp add: ends_number_def)
      with "10.IH"(1) k d
      have v: "parse_value k (stringify (snd p) @ CHR '','' # ?r4) = Inr (snd p, CHR '','' # ?r4)"
        by simp
      from "10.IH"(2) False k d have m: "parse_members k ?r4 = Inr (ps, rest)" by simp
      from members_step_more [where val = "parse_value k" and m = "parse_members k" and k = "fst p", OF v m] k False
      show ?thesis by simp
    qed
  qed
qed

lemma fuel_le_length:
  "fuel v \<le> length (stringify v)"
  "fuel_elements xs \<le> Suc (length (stringify_elements xs))"
  "fuel_members ps \<le> Suc (length (stringify_members ps))"
proof (induction v and xs and ps rule: stringify_stringify_elements_stringify_members.induct)
  case (3 i)
  from toString_Cons [of i] show ?case by auto
next
  case (4 s)
  show ?case by (simp add: quote_def)
next
  case (8 x xs)
  then show ?case by (cases "xs = []") simp_all
next
  case (10 p ps)
  then show ?case by (cases "ps = []") simp_all
qed simp_all

lemma JSON_parse_stringify:
  assumes "distinct_keys v"
  shows "JSON_parse (stringify v) = Inr v"
proof -
  have "fuel v \<le> 2 * length (stringify v) + 1"
    using fuel_le_length(1) [of v] by simp
  moreover have "ends_number []" by (simp add: ends_number_def)
  ultimately have "parse_value (2 * length (stringify v) + 1) (stringify v @ []) = Inr (v, [])"
    using parse_stringify_mutual(1) [of v] assms by blast
  then show ?thesis by (simp add: JSON_parse_def skip_ws_def)
qed

subsection \<open>The recursion bound of the parser is never used up\<close>

text \<open>Every parser returns less text than it was given, so a bound of twice the length
  of the text, plus one, is enough for \<^verbatim>\<open>JSON.parse\<close> on any text.\<close>

lemma length_skip_ws: "length (skip_ws cs) \<le> length cs"
  by (simp add: skip_ws_def length_dropWhile_le)

lemma cons_char_Inr:
  "cons_char c res = Inr (s, r) \<Longrightarrow> \<exists>s'. res = Inr (s', r)"
  by (auto simp: cons_char_def split: sum.splits)

lemma cons_char_fuel: "res \<noteq> Inl OutOfFuel \<Longrightarrow> cons_char c res \<noteq> Inl OutOfFuel"
  by (auto simp: cons_char_def split: sum.splits)

lemma parse_chars_cases:
  "parse_chars (c # cs) = Inr (s, r) \<Longrightarrow>
     r = cs \<or> (\<exists>d ds. length ds \<le> length cs \<and> cons_char d (parse_chars ds) = Inr (s, r))"
  by (auto simp: Let_def split: if_splits list.splits option.splits)

lemma parse_chars_shorter: "parse_chars cs = Inr (s, r) \<Longrightarrow> length r < length cs"
proof (induction cs arbitrary: s rule: length_induct)
  case (1 cs)
  show ?case
  proof (cases cs)
    case Nil
    with "1.prems" show ?thesis by simp
  next
    case (Cons c cs')
    from parse_chars_cases [of c cs' s r] "1.prems" Cons
    consider "r = cs'"
      | d ds where "length ds \<le> length cs'" "cons_char d (parse_chars ds) = Inr (s, r)"
      by blast
    then show ?thesis
    proof cases
      case 1
      with Cons show ?thesis by simp
    next
      case 2
      from cons_char_Inr [OF 2(2)] obtain s' where "parse_chars ds = Inr (s', r)" by blast
      moreover from 2(1) Cons have "length ds < length cs" by simp
      ultimately have "length r < length ds" using "1.IH" by blast
      with 2(1) Cons show ?thesis by simp
    qed
  qed
qed

lemma parse_chars_fuel_cases:
  "parse_chars (c # cs) = Inl OutOfFuel \<Longrightarrow>
   (\<forall>ds. length ds \<le> length cs \<longrightarrow> parse_chars ds \<noteq> Inl OutOfFuel) \<Longrightarrow> False"
  by (auto simp: Let_def cons_char_def split: if_splits list.splits option.splits sum.splits)

lemma parse_chars_fuel: "parse_chars cs \<noteq> Inl OutOfFuel"
proof (induction cs rule: length_induct)
  case (1 cs)
  show ?case
  proof (cases cs)
    case Nil
    then show ?thesis by simp
  next
    case (Cons c cs')
    with "1.IH" have "\<forall>ds. length ds \<le> length cs' \<longrightarrow> parse_chars ds \<noteq> Inl OutOfFuel"
      by simp
    with parse_chars_fuel_cases [of c cs'] Cons show ?thesis by blast
  qed
qed

lemma parse_int_shorter: "parse_int cs = Inr (n, r) \<Longrightarrow> length r < length cs"
proof (cases cs)
  case Nil
  then show "parse_int cs = Inr (n, r) \<Longrightarrow> length r < length cs" by (simp add: parse_int_def)
next
  case (Cons d ds)
  assume p: "parse_int cs = Inr (n, r)"
  show "length r < length cs"
  proof (cases "d = CHR ''0''")
    case True
    with p Cons show ?thesis by (simp add: parse_int_def split: if_splits)
  next
    case False
    with p Cons have "is_digit d" "r = dropWhile is_digit ds"
      by (simp_all add: parse_int_def split: if_splits)
    with Cons length_dropWhile_le [of is_digit ds] show ?thesis by simp
  qed
qed

lemma parse_number_shorter: "parse_number cs = Inr (v, r) \<Longrightarrow> length r < length cs"
proof -
  assume p: "parse_number cs = Inr (v, r)"
  let ?cs = "if cs \<noteq> [] \<and> hd cs = CHR ''-'' then tl cs else cs"
  from p obtain n where "parse_int ?cs = Inr (n, r)"
    by (auto simp: parse_number_def Let_def split: sum.splits if_splits)
  from parse_int_shorter [OF this] have "length r < length ?cs" .
  moreover have "length ?cs \<le> length cs" by simp
  ultimately show ?thesis by simp
qed

lemma parse_number_fuel: "parse_number cs \<noteq> Inl OutOfFuel"
  by (auto simp: parse_number_def parse_int_def Let_def split: sum.splits if_splits list.splits)

lemma parse_literal_shorter: "parse_literal cs = Inr (v, r) \<Longrightarrow> length r < length cs"
  by (cases cs) (auto simp: parse_literal_def split: if_splits)

lemma parse_literal_fuel: "parse_literal cs \<noteq> Inl OutOfFuel"
  by (simp add: parse_literal_def)

lemma skip_ws_shorter: "skip_ws cs = c # r \<Longrightarrow> length r < length cs"
  using length_skip_ws [of cs] by simp

lemma value_step_shorter:
  assumes "value_step e m cs = Inr (v, r)"
    and e: "\<And>ds xs r'. e ds = Inr (xs, r') \<Longrightarrow> length r' < length ds"
    and m: "\<And>ds ps r'. m ds = Inr (ps, r') \<Longrightarrow> length r' < length ds"
  shows "length r < length cs"
proof -
  from assms(1) obtain c rest where sk: "skip_ws cs = c # rest"
    by (cases "skip_ws cs") (simp_all add: value_step_def)
  note len = skip_ws_shorter [OF sk]
  have inner: "length r1 < length cs" if "skip_ws rest = c1 # r1" for c1 r1
    using skip_ws_shorter [OF that] len by simp
  have e': "length r' < length cs" if "e rest = Inr (xs, r')" for xs r'
    using e [OF that] len by simp
  have m': "length r' < length cs" if "m rest = Inr (ps, r')" for ps r'
    using m [OF that] len by simp
  consider (arr) "c = CHR ''[''" | (obj) "c \<noteq> CHR ''[''" "c = CHR ''{''"
    | (str) "c \<noteq> CHR ''[''" "c \<noteq> CHR ''{''" "c = CHR 0x22"
    | (num) "c \<noteq> CHR ''[''" "c \<noteq> CHR ''{''" "c \<noteq> CHR 0x22" "c = CHR ''-'' \<or> is_digit c"
    | (lit) "c \<noteq> CHR ''[''" "c \<noteq> CHR ''{''" "c \<noteq> CHR 0x22" "\<not> (c = CHR ''-'' \<or> is_digit c)"
    by blast
  then show ?thesis
  proof cases
    case arr
    with assms(1) sk have
      "(case skip_ws rest of
          [] \<Rightarrow> Inl SyntaxError
        | c1 # r1 \<Rightarrow>
            if c1 = CHR '']'' then Inr (JArr [], r1)
            else (case e rest of Inl x \<Rightarrow> Inl x | Inr (xs, r2) \<Rightarrow> Inr (JArr xs, r2))) = Inr (v, r)"
      by (simp add: value_step_def)
    then show ?thesis
      by (auto split: list.splits if_splits sum.splits dest: inner e')
  next
    case obj
    with assms(1) sk have
      "(case skip_ws rest of
          [] \<Rightarrow> Inl SyntaxError
        | c1 # r1 \<Rightarrow>
            if c1 = CHR ''}'' then Inr (JObj [], r1)
            else (case m rest of
                    Inl x \<Rightarrow> Inl x
                  | Inr (ps, r2) \<Rightarrow>
                      Inr (JObj (foldl (\<lambda>obj p. obj_set (fst p) (snd p) obj) [] ps), r2))) =
       Inr (v, r)"
      by (simp add: value_step_def)
    then show ?thesis
      by (auto split: list.splits if_splits sum.splits dest: inner m')
  next
    case str
    with assms(1) sk obtain k where "parse_chars rest = Inr (k, r)"
      by (auto simp: value_step_def split: sum.splits)
    from parse_chars_shorter [OF this] len show ?thesis by simp
  next
    case num
    with assms(1) sk have "parse_number (c # rest) = Inr (v, r)"
      by (auto simp: value_step_def)
    from parse_number_shorter [OF this] len show ?thesis by simp
  next
    case lit
    with assms(1) sk have "parse_literal (c # rest) = Inr (v, r)"
      by (auto simp: value_step_def)
    from parse_literal_shorter [OF this] len show ?thesis by simp
  qed
qed

lemma value_step_fuel:
  assumes e: "\<And>ds. length ds < length cs \<Longrightarrow> e ds \<noteq> Inl OutOfFuel"
    and m: "\<And>ds. length ds < length cs \<Longrightarrow> m ds \<noteq> Inl OutOfFuel"
  shows "value_step e m cs \<noteq> Inl OutOfFuel"
proof (cases "skip_ws cs")
  case Nil
  then show ?thesis by (simp add: value_step_def)
next
  case (Cons c rest)
  note len = skip_ws_shorter [OF Cons]
  from e [OF len] m [OF len] Cons parse_chars_fuel [of rest] parse_number_fuel [of "c # rest"]
    parse_literal_fuel [of "c # rest"]
  show ?thesis
    by (auto simp: value_step_def split: if_splits list.splits sum.splits)
qed

lemma elements_step_shorter:
  assumes "elements_step val e cs = Inr (xs, r)"
    and v: "\<And>x r'. val cs = Inr (x, r') \<Longrightarrow> length r' < length cs"
    and e: "\<And>ds ys r'. e ds = Inr (ys, r') \<Longrightarrow> length r' < length ds"
  shows "length r < length cs"
proof -
  from assms(1) obtain x r0 where x: "val cs = Inr (x, r0)"
    by (cases "val cs") (auto simp: elements_step_def)
  from assms(1) x obtain c r1 where sk: "skip_ws r0 = c # r1"
    by (cases "skip_ws r0") (simp_all add: elements_step_def)
  from v [OF x] skip_ws_shorter [OF sk] have len: "length r1 < length cs" by simp
  have e': "length r' < length cs" if "e r1 = Inr (ys, r')" for ys r'
    using e [OF that] len by simp
  from assms(1) x sk len show ?thesis
    by (auto simp: elements_step_def split: if_splits sum.splits dest: e')
qed

lemma elements_step_fuel:
  assumes "val cs \<noteq> Inl OutOfFuel"
    and v: "\<And>x r'. val cs = Inr (x, r') \<Longrightarrow> length r' < length cs"
    and e: "\<And>ds. length ds < length cs \<Longrightarrow> e ds \<noteq> Inl OutOfFuel"
  shows "elements_step val e cs \<noteq> Inl OutOfFuel"
proof (cases "val cs")
  case (Inl err)
  with assms(1) show ?thesis by (simp add: elements_step_def)
next
  case (Inr p)
  obtain x r0 where p: "p = (x, r0)" by (cases p)
  show ?thesis
  proof (cases "skip_ws r0")
    case Nil
    with Inr p show ?thesis by (simp add: elements_step_def)
  next
    case (Cons c r1)
    from v [of x r0] Inr p skip_ws_shorter [OF Cons] have "length r1 < length cs" by simp
    from e [OF this] Inr p Cons show ?thesis
      by (auto simp: elements_step_def split: sum.splits)
  qed
qed

lemma members_step_cases:
  assumes "members_step val m cs = res" and "res \<noteq> Inl SyntaxError"
  obtains (str) r where "skip_ws cs = CHR 0x22 # r" "parse_chars r = Inl (projl res)" "res = Inl (projl res)"
  | (val) r k r1 r2 where "skip_ws cs = CHR 0x22 # r" "parse_chars r = Inr (k, r1)"
      "skip_ws r1 = CHR '':'' # r2"
      "res = (case val r2 of
                Inl e \<Rightarrow> Inl e
              | Inr (v, r3) \<Rightarrow>
                  (case skip_ws r3 of
                     [] \<Rightarrow> Inl SyntaxError
                   | c1 # r4 \<Rightarrow>
                       if c1 = CHR ''}'' then Inr ([(k, v)], r4)
                       else if c1 = CHR '','' then
                         (case m r4 of
                            Inl e \<Rightarrow> Inl e
                          | Inr (ps, r5) \<Rightarrow> Inr ((k, v) # ps, r5))
                       else Inl SyntaxError))"
proof (cases "skip_ws cs")
  case Nil
  with assms show ?thesis by (simp add: members_step_def)
next
  case (Cons q r)
  with assms have q: "q = CHR 0x22" by (auto simp: members_step_def split: if_splits)
  show ?thesis
  proof (cases "parse_chars r")
    case (Inl e)
    with assms Cons q have "res = Inl e" by (simp add: members_step_def)
    with Inl Cons q str show ?thesis by simp
  next
    case (Inr p)
    obtain k r1 where p: "p = (k, r1)" by (cases p)
    show ?thesis
    proof (cases "skip_ws r1")
      case Nil
      with assms Cons q Inr p show ?thesis by (simp add: members_step_def)
    next
      case c: (Cons c r2)
      with assms Cons q Inr p have "c = CHR '':''"
        by (auto simp: members_step_def split: if_splits)
      with assms Cons q Inr p c val [of r k r1 r2] show ?thesis
        by (simp add: members_step_def)
    qed
  qed
qed

lemma members_step_shorter:
  assumes "members_step val m cs = Inr (ps, r)"
    and v: "\<And>ds x r'. val ds = Inr (x, r') \<Longrightarrow> length r' < length ds"
    and m: "\<And>ds qs r'. m ds = Inr (qs, r') \<Longrightarrow> length r' < length ds"
  shows "length r < length cs"
proof (rule members_step_cases [OF assms(1)])
  show "Inr (ps, r) \<noteq> Inl SyntaxError" by simp
next
  fix r0 assume "Inr (ps, r) = Inl (projl (Inr (ps, r)))"
  then show ?thesis by simp
next
  fix r0 k r1 r2
  assume sk: "skip_ws cs = CHR 0x22 # r0" and pc: "parse_chars r0 = Inr (k, r1)"
    and sk1: "skip_ws r1 = CHR '':'' # r2"
    and res: "Inr (ps, r) =
      (case val r2 of
         Inl e \<Rightarrow> Inl e
       | Inr (v, r3) \<Rightarrow>
           (case skip_ws r3 of
              [] \<Rightarrow> Inl SyntaxError
            | c1 # r4 \<Rightarrow>
                if c1 = CHR ''}'' then Inr ([(k, v)], r4)
                else if c1 = CHR '','' then
                  (case m r4 of
                     Inl e \<Rightarrow> Inl e
                   | Inr (ps, r5) \<Rightarrow> Inr ((k, v) # ps, r5))
                else Inl SyntaxError))"
  from skip_ws_shorter [OF sk] parse_chars_shorter [OF pc] skip_ws_shorter [OF sk1]
  have len: "length r2 < length cs" by simp
  from res obtain x r3 where x: "val r2 = Inr (x, r3)"
    by (cases "val r2") auto
  from res x obtain c1 r4 where sk3: "skip_ws r3 = c1 # r4"
    by (cases "skip_ws r3") simp_all
  from v [OF x] skip_ws_shorter [OF sk3] len have len4: "length r4 < length cs" by simp
  have m': "length r' < length cs" if "m r4 = Inr (qs, r')" for qs r'
    using m [OF that] len4 by simp
  from res x sk3 len4 show ?thesis
    by (auto split: if_splits sum.splits dest: m')
qed

lemma members_step_fuel:
  assumes v: "\<And>ds. length ds < length cs \<Longrightarrow> val ds \<noteq> Inl OutOfFuel"
    and vs: "\<And>ds x r'. val ds = Inr (x, r') \<Longrightarrow> length r' < length ds"
    and m: "\<And>ds. length ds < length cs \<Longrightarrow> m ds \<noteq> Inl OutOfFuel"
  shows "members_step val m cs \<noteq> Inl OutOfFuel"
proof
  assume a: "members_step val m cs = Inl OutOfFuel"
  show False
  proof (rule members_step_cases [OF a])
    show "Inl OutOfFuel \<noteq> (Inl SyntaxError :: error + (string \<times> json) list \<times> string)" by simp
  next
    fix r0 assume "parse_chars r0 = Inl (projl (Inl OutOfFuel :: error + (string \<times> json) list \<times> string))"
    with parse_chars_fuel [of r0] show False by simp
  next
    fix r0 k r1 r2
    assume sk: "skip_ws cs = CHR 0x22 # r0" and pc: "parse_chars r0 = Inr (k, r1)"
      and sk1: "skip_ws r1 = CHR '':'' # r2"
      and res: "Inl OutOfFuel =
        (case val r2 of
           Inl e \<Rightarrow> Inl e
         | Inr (v, r3) \<Rightarrow>
             (case skip_ws r3 of
                [] \<Rightarrow> Inl SyntaxError
              | c1 # r4 \<Rightarrow>
                  if c1 = CHR ''}'' then Inr ([(k, v)], r4)
                  else if c1 = CHR '','' then
                    (case m r4 of
                       Inl e \<Rightarrow> Inl e
                     | Inr (ps, r5) \<Rightarrow> Inr ((k, v) # ps, r5))
                  else Inl SyntaxError))"
    from skip_ws_shorter [OF sk] parse_chars_shorter [OF pc] skip_ws_shorter [OF sk1]
    have len: "length r2 < length cs" by simp
    show False
    proof (cases "val r2")
      case (Inl e)
      with res v [OF len] show ?thesis by simp
    next
      case (Inr p)
      obtain x r3 where p: "p = (x, r3)" by (cases p)
      show ?thesis
      proof (cases "skip_ws r3")
        case Nil
        with res Inr p show ?thesis by simp
      next
        case (Cons c1 r4)
        from vs [of r2 x r3] Inr p skip_ws_shorter [OF Cons] len
        have "length r4 < length cs" by simp
        from m [OF this] res Inr p Cons show ?thesis
          by (auto split: if_splits sum.splits)
      qed
    qed
  qed
qed

lemma parse_shorter:
  "(\<forall>cs v r. parse_value n cs = Inr (v, r) \<longrightarrow> length r < length cs) \<and>
   (\<forall>cs xs r. parse_elements n cs = Inr (xs, r) \<longrightarrow> length r < length cs) \<and>
   (\<forall>cs ps r. parse_members n cs = Inr (ps, r) \<longrightarrow> length r < length cs)"
proof (induction n)
  case 0
  show ?case by simp
next
  case (Suc n)
  from Suc have v: "\<And>ds x r'. parse_value n ds = Inr (x, r') \<Longrightarrow> length r' < length ds"
    and e: "\<And>ds xs r'. parse_elements n ds = Inr (xs, r') \<Longrightarrow> length r' < length ds"
    and m: "\<And>ds ps r'. parse_members n ds = Inr (ps, r') \<Longrightarrow> length r' < length ds"
    by blast+
  have "length r < length cs" if "parse_value (Suc n) cs = Inr (x, r)" for cs x r
    using that value_step_shorter [where e = "parse_elements n" and m = "parse_members n", OF _ e m]
    by simp
  moreover have "length r < length cs" if "parse_elements (Suc n) cs = Inr (xs, r)" for cs xs r
    using that elements_step_shorter [where val = "parse_value n" and e = "parse_elements n", OF _ v e]
    by simp
  moreover have "length r < length cs" if "parse_members (Suc n) cs = Inr (ps, r)" for cs ps r
    using that members_step_shorter [where val = "parse_value n" and m = "parse_members n", OF _ v m]
    by simp
  ultimately show ?case by blast
qed

lemma parse_fuel:
  "(\<forall>cs. 2 * length cs + 1 \<le> n \<longrightarrow> parse_value n cs \<noteq> Inl OutOfFuel) \<and>
   (\<forall>cs. 2 * length cs + 2 \<le> n \<longrightarrow> parse_elements n cs \<noteq> Inl OutOfFuel) \<and>
   (\<forall>cs. 2 * length cs + 2 \<le> n \<longrightarrow> parse_members n cs \<noteq> Inl OutOfFuel)"
proof (induction n)
  case 0
  show ?case by simp
next
  case (Suc n)
  from Suc have v: "\<And>ds. 2 * length ds + 1 \<le> n \<Longrightarrow> parse_value n ds \<noteq> Inl OutOfFuel"
    and e: "\<And>ds. 2 * length ds + 2 \<le> n \<Longrightarrow> parse_elements n ds \<noteq> Inl OutOfFuel"
    and m: "\<And>ds. 2 * length ds + 2 \<le> n \<Longrightarrow> parse_members n ds \<noteq> Inl OutOfFuel"
    by blast+
  from parse_shorter [of n]
  have vs: "\<And>ds x r'. parse_value n ds = Inr (x, r') \<Longrightarrow> length r' < length ds"
    by blast
  have "parse_value (Suc n) cs \<noteq> Inl OutOfFuel" if "2 * length cs + 1 \<le> Suc n" for cs
  proof -
    have "parse_elements n ds \<noteq> Inl OutOfFuel" "parse_members n ds \<noteq> Inl OutOfFuel"
      if "length ds < length cs" for ds
      using that \<open>2 * length cs + 1 \<le> Suc n\<close> by (auto intro!: e m)
    from value_step_fuel [where e = "parse_elements n" and m = "parse_members n" and cs = cs, OF this]
    show ?thesis by simp
  qed
  moreover have "parse_elements (Suc n) cs \<noteq> Inl OutOfFuel" if "2 * length cs + 2 \<le> Suc n" for cs
  proof -
    from that have a: "parse_value n cs \<noteq> Inl OutOfFuel" by (intro v) simp
    have b: "parse_elements n ds \<noteq> Inl OutOfFuel" if "length ds < length cs" for ds
      using that \<open>2 * length cs + 2 \<le> Suc n\<close> by (intro e) simp
    from elements_step_fuel [where val = "parse_value n" and e = "parse_elements n", OF a vs b]
    show ?thesis by simp
  qed
  moreover have "parse_members (Suc n) cs \<noteq> Inl OutOfFuel" if "2 * length cs + 2 \<le> Suc n" for cs
  proof -
    have a: "parse_value n ds \<noteq> Inl OutOfFuel" if "length ds < length cs" for ds
      using that \<open>2 * length cs + 2 \<le> Suc n\<close> by (intro v) simp
    have b: "parse_members n ds \<noteq> Inl OutOfFuel" if "length ds < length cs" for ds
      using that \<open>2 * length cs + 2 \<le> Suc n\<close> by (intro m) simp
    from members_step_fuel [where val = "parse_value n" and m = "parse_members n", OF a vs b]
    show ?thesis by simp
  qed
  ultimately show ?case by blast
qed

lemma JSON_parse_fuel: "JSON_parse s \<noteq> Inl OutOfFuel"
proof -
  from parse_fuel [of "2 * length s + 1"]
  have "parse_value (2 * length s + 1) s \<noteq> Inl OutOfFuel" by blast
  then show ?thesis by (auto simp: JSON_parse_def split: sum.splits)
qed

section \<open>Properties of the to-do list\<close>

lemma get_id_task_json: "get_prop ''id'' (task_json t) = Inr (Some (JNum (task_id t)))"
  by (simp add: get_prop_def task_json_def)

lemma find_id_tasks:
  "j < length ts \<Longrightarrow> task_id (ts ! j) = i \<Longrightarrow> (\<forall>k<j. task_id (ts ! k) \<noteq> i) \<Longrightarrow>
   find_id i (map task_json ts) = Inr (Some j)"
proof (induction ts arbitrary: j)
  case Nil
  then show ?case by simp
next
  case (Cons t ts)
  show ?case
  proof (cases j)
    case 0
    with Cons.prems show ?thesis by (simp add: get_id_task_json)
  next
    case (Suc j')
    from Cons.prems Suc have "task_id t \<noteq> i" by auto
    moreover from Cons.prems Suc have "find_id i (map task_json ts) = Inr (Some j')"
      by (intro Cons.IH) auto
    ultimately show ?thesis using Suc by (simp add: get_id_task_json)
  qed
qed

lemma find_id_absent:
  "i \<notin> task_id ` set ts \<Longrightarrow> find_id i (map task_json ts) = Inr None"
  by (induction ts) (auto simp: get_id_task_json)

lemma negate_completed_task_json:
  "negate_completed (task_json t) = task_json (t\<lparr>task_completed := \<not> task_completed t\<rparr>)"
  by (simp add: negate_completed_def task_json_def truthy_opt_def truthy_def)

lemma filter_id_tasks:
  "filter_id i (map task_json ts) = Inr (map task_json (filter (\<lambda>t. task_id t \<noteq> i) ts))"
  by (induction ts) (simp_all add: get_id_task_json)

lemma render_tasks_json: "tasks st = tasks_json ts \<Longrightarrow> render st = None"
  by (auto simp: render_def tasks_json_def task_json_def)

lemma render_save [simp]: "render (save st) = render st"
  by (simp add: render_def save_def)

lemma tasks_save [simp]: "tasks (save st) = tasks st"
  by (simp add: save_def)

lemma filter_distinct_nth:
  "distinct (map f xs) \<Longrightarrow> j < length xs \<Longrightarrow>
   filter (\<lambda>x. f x \<noteq> f (xs ! j)) xs = take j xs @ drop (Suc j) xs"
proof (induction xs arbitrary: j)
  case Nil
  then show ?case by simp
next
  case (Cons x xs)
  show ?case
  proof (cases j)
    case 0
    from Cons.prems(1) have "f x \<notin> f ` set xs" by simp
    then have "\<forall>y \<in> set xs. f y \<noteq> f x" by (metis imageI)
    then have "filter (\<lambda>y. f y \<noteq> f x) xs = xs" by (simp add: filter_id_conv)
    with 0 show ?thesis by simp
  next
    case (Suc j')
    with Cons.prems have "f (xs ! j') \<in> f ` set xs" "f x \<notin> f ` set xs" by auto
    then have "f x \<noteq> f (xs ! j')" by metis
    moreover from Cons.prems Suc
    have "filter (\<lambda>y. f y \<noteq> f (xs ! j')) xs = take j' xs @ drop (Suc j') xs"
      by (intro Cons.IH) auto
    ultimately show ?thesis using Suc by simp
  qed
qed

text \<open>
  Claim C7, as amended. Ids are timestamps and need not be distinct, and the operations
  take an id, not a task. Let the task list be the list \<open>ts\<close> of tasks. Adding, when the
  trimmed input is not empty, raises nothing and leaves the new task, not completed and
  with the trimmed input as its text, in front of \<open>ts\<close>. Toggling the id \<open>i\<close> raises
  nothing and negates the flag of the first task with this id, \<open>ts ! j\<close>, changing no other
  task. Deleting the id \<open>i\<close> raises nothing and removes every task with this id, leaving
  the tasks with other ids unchanged and in their order; when the ids are distinct that is
  \<open>ts\<close> without the one task \<open>ts ! j\<close> that has the id.
\<close>

theorem todo_operations:
  assumes "tasks st = tasks_json ts"
  shows "(trim (inputEl st) \<noteq> [] \<longrightarrow>
            fst (addTask now st) = None \<and>
            tasks (snd (addTask now st)) =
              tasks_json (\<lparr>task_id = now, task_text = trim (inputEl st), task_completed = False\<rparr> # ts)) \<and>
         (\<forall>j. j < length ts \<and> task_id (ts ! j) = i \<and> (\<forall>k<j. task_id (ts ! k) \<noteq> i) \<longrightarrow>
            fst (toggleTask i st) = None \<and>
            tasks (snd (toggleTask i st)) =
              tasks_json (ts[j := (ts ! j)\<lparr>task_completed := \<not> task_completed (ts ! j)\<rparr>])) \<and>
         fst (deleteTask i st) = None \<and>
         tasks (snd (deleteTask i st)) = tasks_json (filter (\<lambda>t. task_id t \<noteq> i) ts) \<and>
         (\<forall>j. distinct (map task_id ts) \<and> j < length ts \<and> task_id (ts ! j) = i \<longrightarrow>
            tasks (snd (deleteTask i st)) = tasks_json (take j ts @ drop (Suc j) ts))"
proof -
  have add: "fst (addTask now st) = None \<and>
      tasks (snd (addTask now st)) =
        tasks_json (\<lparr>task_id = now, task_text = trim (inputEl st), task_completed = False\<rparr> # ts)"
    if "trim (inputEl st) \<noteq> []"
  proof -
    let ?t = "\<lparr>task_id = now, task_text = trim (inputEl st), task_completed = False\<rparr>"
    let ?st1 = "save (st\<lparr>tasks := tasks_json (?t # ts)\<rparr>)"
    have u: "unshift (JObj [(''id'', JNum now), (''text'', JStr (trim (inputEl st))),
                (''completed'', JBool False)]) (tasks st) = Inr (tasks_json (?t # ts))"
      using assms by (simp add: unshift_def tasks_json_def task_json_def)
    have r: "render ?st1 = None"
      using render_tasks_json [of "st\<lparr>tasks := tasks_json (?t # ts)\<rparr>" "?t # ts"] by simp
    have "addTask now st = (None, ?st1\<lparr>inputEl := []\<rparr>)"
      using that u r by (simp add: addTask_def Let_def)
    then show ?thesis by simp
  qed
  have toggle: "fst (toggleTask i st) = None \<and>
      tasks (snd (toggleTask i st)) =
        tasks_json (ts[j := (ts ! j)\<lparr>task_completed := \<not> task_completed (ts ! j)\<rparr>])"
    if "j < length ts \<and> task_id (ts ! j) = i \<and> (\<forall>k<j. task_id (ts ! k) \<noteq> i)" for j
  proof -
    let ?ts = "ts[j := (ts ! j)\<lparr>task_completed := \<not> task_completed (ts ! j)\<rparr>]"
    from that have f: "find_id i (map task_json ts) = Inr (Some j)"
      by (intro find_id_tasks) auto
    have upd: "(map task_json ts)[j := negate_completed (map task_json ts ! j)] = map task_json ?ts"
      using that by (simp add: negate_completed_task_json map_update)
    let ?st1 = "save (st\<lparr>tasks := tasks_json ?ts\<rparr>)"
    have r: "render ?st1 = None"
      using render_tasks_json [of "st\<lparr>tasks := tasks_json ?ts\<rparr>" ?ts] by simp
    have "toggleTask i st = (None, ?st1)"
      using assms f upd r by (simp add: toggleTask_def tasks_json_def Let_def)
    then show ?thesis by simp
  qed
  have delete: "fst (deleteTask i st) = None"
      "tasks (snd (deleteTask i st)) = tasks_json (filter (\<lambda>t. task_id t \<noteq> i) ts)"
  proof -
    let ?ts = "filter (\<lambda>t. task_id t \<noteq> i) ts"
    let ?st1 = "save (st\<lparr>tasks := tasks_json ?ts\<rparr>)"
    have r: "render ?st1 = None"
      using render_tasks_json [of "st\<lparr>tasks := tasks_json ?ts\<rparr>" ?ts] by simp
    have "deleteTask i st = (None, ?st1)"
      using assms filter_id_tasks [of i ts] r by (simp add: deleteTask_def tasks_json_def Let_def)
    then show "fst (deleteTask i st) = None"
      "tasks (snd (deleteTask i st)) = tasks_json (filter (\<lambda>t. task_id t \<noteq> i) ts)"
      by simp_all
  qed
  have exactly: "tasks (snd (deleteTask i st)) = tasks_json (take j ts @ drop (Suc j) ts)"
    if "distinct (map task_id ts) \<and> j < length ts \<and> task_id (ts ! j) = i" for j
    using that delete(2) filter_distinct_nth [of task_id ts j] by auto
  from add toggle delete exactly show ?thesis by blast
qed

lemma tasks_twins:
  "tasks twins = tasks_json [\<lparr>task_id = 5, task_text = ''b'', task_completed = False\<rparr>,
                            \<lparr>task_id = 5, task_text = ''a'', task_completed = False\<rparr>]"
  by (simp add: twins_def addTask_def trim_def is_space_def unshift_def render_def save_def
      Let_def tasks_json_def task_json_def)

text \<open>
  Claim C7 as it is written, for every list, fails on a list in which two tasks have one
  id, as after two additions in the same millisecond. Deleting by that id removes both
  tasks, so neither is left as the claim has it for the deletion of the other; and
  toggling by that id negates the flag of the first task, so the list is not the one in
  which the second task, which has the id as well, is the task toggled.
\<close>

theorem todo_duplicate_ids_counterexample:
  "tasks twins = tasks_json [\<lparr>task_id = 5, task_text = ''b'', task_completed = False\<rparr>,
                            \<lparr>task_id = 5, task_text = ''a'', task_completed = False\<rparr>] \<and>
   tasks (snd (deleteTask 5 twins)) = tasks_json [] \<and>
   tasks (snd (deleteTask 5 twins)) \<noteq>
     tasks_json [\<lparr>task_id = 5, task_text = ''b'', task_completed = False\<rparr>] \<and>
   tasks (snd (deleteTask 5 twins)) \<noteq>
     tasks_json [\<lparr>task_id = 5, task_text = ''a'', task_completed = False\<rparr>] \<and>
   tasks (snd (toggleTask 5 twins)) =
     tasks_json [\<lparr>task_id = 5, task_text = ''b'', task_completed = True\<rparr>,
                 \<lparr>task_id = 5, task_text = ''a'', task_completed = False\<rparr>] \<and>
   tasks (snd (toggleTask 5 twins)) \<noteq>
     tasks_json [\<lparr>task_id = 5, task_text = ''b'', task_completed = False\<rparr>,
                 \<lparr>task_id = 5, task_text = ''a'', task_completed = True\<rparr>]"
proof -
  have d: "tasks (snd (deleteTask 5 twins)) = tasks_json []"
    by (simp add: deleteTask_def tasks_twins tasks_json_def task_json_def get_prop_def Let_def)
  have t: "tasks (snd (toggleTask 5 twins)) =
     tasks_json [\<lparr>task_id = 5, task_text = ''b'', task_completed = True\<rparr>,
                 \<lparr>task_id = 5, task_text = ''a'', task_completed = False\<rparr>]"
    by (simp add: toggleTask_def tasks_twins tasks_json_def task_json_def get_prop_def
        negate_completed_def truthy_opt_def truthy_def Let_def)
  show ?thesis
    unfolding d t by (simp add: tasks_twins tasks_json_def task_json_def)
qed

lemma trim_example: "trim ''  buy milk '' = ''buy milk''"
  by (simp add: trim_def is_space_def)

text \<open>C7 on the example list: a task added in front, the second task toggled, the first
  one deleted.\<close>

theorem todo_operations_witness:
  "tasks todo0 = tasks_json [\<lparr>task_id = 5, task_text = ''walk'', task_completed = False\<rparr>,
                            \<lparr>task_id = 3, task_text = ''read'', task_completed = True\<rparr>] \<and>
   trim (inputEl todo0) = ''buy milk'' \<and>
   fst (addTask 17 todo0) = None \<and>
   tasks (snd (addTask 17 todo0)) =
     tasks_json [\<lparr>task_id = 17, task_text = ''buy milk'', task_completed = False\<rparr>,
                 \<lparr>task_id = 5, task_text = ''walk'', task_completed = False\<rparr>,
                 \<lparr>task_id = 3, task_text = ''read'', task_completed = True\<rparr>] \<and>
   tasks (snd (toggleTask 3 todo0)) =
     tasks_json [\<lparr>task_id = 5, task_text = ''walk'', task_completed = False\<rparr>,
                 \<lparr>task_id = 3, task_text = ''read'', task_completed = False\<rparr>] \<and>
   tasks (snd (deleteTask 5 todo0)) =
     tasks_json [\<lparr>task_id = 3, task_text = ''read'', task_completed = True\<rparr>]"
proof -
  let ?ts = "[\<lparr>task_id = 5, task_text = ''walk'', task_completed = False\<rparr>,
              \<lparr>task_id = 3, task_text = ''read'', task_completed = True\<rparr>]"
  have t: "tasks todo0 = tasks_json ?ts" by (simp add: todo0_def)
  have i: "trim (inputEl todo0) = ''buy milk''" by (simp add: todo0_def trim_example)
  from todo_operations [OF t, of 17 3] i
  have add: "fst (addTask 17 todo0) = None"
    "tasks (snd (addTask 17 todo0)) =
       tasks_json (\<lparr>task_id = 17, task_text = ''buy milk'', task_completed = False\<rparr> # ?ts)"
    by simp_all
  from todo_operations [OF t, of 17 3]
  have "\<forall>j. j < length ?ts \<and> task_id (?ts ! j) = 3 \<and> (\<forall>k<j. task_id (?ts ! k) \<noteq> 3) \<longrightarrow>
      tasks (snd (toggleTask 3 todo0)) =
        tasks_json (?ts[j := (?ts ! j)\<lparr>task_completed := \<not> task_completed (?ts ! j)\<rparr>])"
    by blast
  from this [rule_format, of 1]
  have toggle: "tasks (snd (toggleTask 3 todo0)) =
     tasks_json [\<lparr>task_id = 5, task_text = ''walk'', task_completed = False\<rparr>,
                 \<lparr>task_id = 3, task_text = ''read'', task_completed = False\<rparr>]"
    by simp
  from todo_operations [OF t, of 17 5]
  have delete: "tasks (snd (deleteTask 5 todo0)) =
     tasks_json [\<lparr>task_id = 3, task_text = ''read'', task_completed = True\<rparr>]"
    by simp
  from t i add toggle delete show ?thesis by simp
qed

lemma distinct_keys_tasks_json: "distinct_keys (tasks_json ts)"
proof -
  have "distinct_keys_elements (map task_json ts)"
    by (induction ts) (simp_all add: task_json_def)
  then show ?thesis by (simp add: tasks_json_def)
qed

text \<open>
  Claim C8. For every list \<open>ts\<close> of tasks, \<^verbatim>\<open>save\<close> stores its JSON text under the key
  \<^verbatim>\<open>pomodoro-tasks\<close>, \<^verbatim>\<open>JSON.parse\<close> of that text is the list again, and the
  constructor run on the storage that \<^verbatim>\<open>save\<close> left builds a manager whose task list
  is \<open>ts\<close>.
\<close>

theorem save_reload_roundtrip:
  assumes "tasks st = tasks_json ts"
  shows "localStorage (save st) ''pomodoro-tasks'' = Some (stringify (tasks_json ts)) \<and>
         JSON_parse (stringify (tasks_json ts)) = Inr (tasks_json ts) \<and>
         TodoManager_new (localStorage (save st)) input =
           Inr \<lparr>tasks = tasks_json ts, inputEl = input, localStorage = localStorage (save st)\<rparr>"
proof -
  have stored: "localStorage (save st) ''pomodoro-tasks'' = Some (stringify (tasks_json ts))"
    using assms by (simp add: save_def)
  have parsed: "JSON_parse (stringify (tasks_json ts)) = Inr (tasks_json ts)"
    by (rule JSON_parse_stringify [OF distinct_keys_tasks_json])
  have t: "truthy (tasks_json ts)" by (simp add: truthy_def tasks_json_def)
  let ?st = "\<lparr>tasks = tasks_json ts, inputEl = input, localStorage = localStorage (save st)\<rparr>"
  have r: "render ?st = None" by (rule render_tasks_json) simp
  have "TodoManager_new (localStorage (save st)) input = Inr ?st"
    using stored parsed t r by (simp add: TodoManager_new_def Let_def)
  with stored parsed show ?thesis by simp
qed

text \<open>C8 on the example list.\<close>

theorem save_reload_roundtrip_witness:
  "tasks todo0 = tasks_json [\<lparr>task_id = 5, task_text = ''walk'', task_completed = False\<rparr>,
                            \<lparr>task_id = 3, task_text = ''read'', task_completed = True\<rparr>] \<and>
   TodoManager_new (localStorage (save todo0)) [] =
     Inr \<lparr>tasks = tasks_json [\<lparr>task_id = 5, task_text = ''walk'', task_completed = False\<rparr>,
                               \<lparr>task_id = 3, task_text = ''read'', task_completed = True\<rparr>],
          inputEl = [], localStorage = localStorage (save todo0)\<rparr>"
proof -
  let ?ts = "[\<lparr>task_id = 5, task_text = ''walk'', task_completed = False\<rparr>,
              \<lparr>task_id = 3, task_text = ''read'', task_completed = True\<rparr>]"
  have t: "tasks todo0 = tasks_json ?ts" by (simp add: todo0_def)
  from save_reload_roundtrip [OF t, of "[]"] t show ?thesis by simp
qed

lemma JSON_parse_null: "JSON_parse ''null'' = Inr JNull"
  using JSON_parse_stringify [of JNull] by simp

text \<open>
  Claim C9. When the storage has nothing under the key, the constructor builds a manager
  with the empty list. What is stored is not validated: any text that parses to an array,
  of whatever values but \<^verbatim>\<open>null\<close>, becomes the task list as it is, and a text that does
  not parse makes the constructor throw instead of falling back to the empty list.
\<close>

theorem load_unvalidated:
  "(storage ''pomodoro-tasks'' = None \<longrightarrow>
      TodoManager_new storage input =
        Inr \<lparr>tasks = JArr [], inputEl = input, localStorage = storage\<rparr>) \<and>
   (\<forall>s xs. storage ''pomodoro-tasks'' = Some s \<and> JSON_parse s = Inr (JArr xs) \<and> JNull \<notin> set xs \<longrightarrow>
      TodoManager_new storage input =
        Inr \<lparr>tasks = JArr xs, inputEl = input, localStorage = storage\<rparr>) \<and>
   (\<forall>s e. storage ''pomodoro-tasks'' = Some s \<and> JSON_parse s = Inl e \<longrightarrow>
      TodoManager_new storage input = Inl e)"
proof -
  have absent: "TodoManager_new storage input =
      Inr \<lparr>tasks = JArr [], inputEl = input, localStorage = storage\<rparr>"
    if "storage ''pomodoro-tasks'' = None"
    using that JSON_parse_null by (simp add: TodoManager_new_def Let_def truthy_def render_def)
  have array: "TodoManager_new storage input =
      Inr \<lparr>tasks = JArr xs, inputEl = input, localStorage = storage\<rparr>"
    if "storage ''pomodoro-tasks'' = Some s \<and> JSON_parse s = Inr (JArr xs) \<and> JNull \<notin> set xs"
    for s xs
    using that by (simp add: TodoManager_new_def Let_def truthy_def render_def)
  have malformed: "TodoManager_new storage input = Inl e"
    if "storage ''pomodoro-tasks'' = Some s \<and> JSON_parse s = Inl e" for s e
    using that by (simp add: TodoManager_new_def)
  from absent array malformed show ?thesis by blast
qed

lemma stringify_example: "stringify (JArr [JNum 5]) = ''[5]''"
  by (simp add: toString_def nat_toString_digit digit_char_def)

text \<open>C9 on an empty storage, and on a storage whose text is an array holding a number,
  which becomes the task list although it holds no task.\<close>

theorem load_unvalidated_witness:
  "TodoManager_new Map.empty [] = Inr \<lparr>tasks = JArr [], inputEl = [], localStorage = Map.empty\<rparr> \<and>
   JSON_parse ''[5]'' = Inr (JArr [JNum 5]) \<and>
   TodoManager_new [''pomodoro-tasks'' \<mapsto> ''[5]''] [] =
     Inr \<lparr>tasks = JArr [JNum 5], inputEl = [], localStorage = [''pomodoro-tasks'' \<mapsto> ''[5]'']\<rparr>"
proof -
  have p: "JSON_parse ''[5]'' = Inr (JArr [JNum 5])"
    using JSON_parse_stringify [of "JArr [JNum 5]"] unfolding stringify_example by simp
  from load_unvalidated [of Map.empty "[]"]
  have a: "TodoManager_new Map.empty [] = Inr \<lparr>tasks = JArr [], inputEl = [], localStorage = Map.empty\<rparr>"
    by simp
  from load_unvalidated [of "[''pomodoro-tasks'' \<mapsto> ''[5]'']" "[]"]
  have "\<forall>s xs. [''pomodoro-tasks'' \<mapsto> ''[5]''] ''pomodoro-tasks'' = Some s \<and>
      JSON_parse s = Inr (JArr xs) \<and> JNull \<notin> set xs \<longrightarrow>
      TodoManager_new [''pomodoro-tasks'' \<mapsto> ''[5]''] [] =
        Inr \<lparr>tasks = JArr xs, inputEl = [], localStorage = [''pomodoro-tasks'' \<mapsto> ''[5]'']\<rparr>"
    by blast
  from this [rule_format, of "''[5]''" "[JNum 5]"] p
  have b: "TodoManager_new [''pomodoro-tasks'' \<mapsto> ''[5]''] [] =
     Inr \<lparr>tasks = JArr [JNum 5], inputEl = [], localStorage = [''pomodoro-tasks'' \<mapsto> ''[5]'']\<rparr>"
    by simp
  from a p b show ?thesis by simp
qed

lemma trim_spaces: "(\<forall>c \<in> set s. is_space c) \<Longrightarrow> trim s = []"
proof -
  assume "\<forall>c \<in> set s. is_space c"
  then have d: "dropWhile is_space s = []" by (induction s) simp_all
  show ?thesis unfolding trim_def d by simp
qed

text \<open>
  Claim C10. When the input holds white space only, or nothing, \<^verbatim>\<open>addTask\<close> raises
  nothing and returns the state it was given: task list, storage and input are unchanged.
\<close>

theorem addTask_blank_noop:
  assumes "\<forall>c \<in> set (inputEl st). is_space c"
  shows "addTask now st = (None, st)"
  using trim_spaces [OF assms] by (simp add: addTask_def)

text \<open>C10 on an input of a space, a tab and a no-break space, and on the empty input.\<close>

theorem addTask_blank_noop_witness:
  "addTask 17 (todo0\<lparr>inputEl := [CHR '' '', CHR 0x09, CHR 0xA0]\<rparr>) =
     (None, todo0\<lparr>inputEl := [CHR '' '', CHR 0x09, CHR 0xA0]\<rparr>) \<and>
   addTask 17 (todo0\<lparr>inputEl := []\<rparr>) = (None, todo0\<lparr>inputEl := []\<rparr>)"
proof -
  have "\<forall>c \<in> set (inputEl (todo0\<lparr>inputEl := [CHR '' '', CHR 0x09, CHR 0xA0]\<rparr>)). is_space c"
    by (simp add: is_space_def)
  from addTask_blank_noop [OF this, of 17]
    addTask_blank_noop [of "todo0\<lparr>inputEl := []\<rparr>" 17]
  show ?thesis by simp
qed

end
